theory Spec2Isabelle
  imports Main "HOL-Library.AList"
begin

section \<open>C++ integer arithmetic\<close>

text \<open>
  The program computes on \<^verbatim>\<open>int\<close> (32 bits) and stores memory cells in
  \<^verbatim>\<open>short\<close> (16 bits). Integer division and remainder of C++ truncate towards
  zero, unlike \<open>div\<close> and \<open>mod\<close> of HOL, which round down. A store into a
  \<^verbatim>\<open>short\<close> keeps the low 16 bits, read as two's complement.
\<close>

definition cpp_div :: "int \<Rightarrow> int \<Rightarrow> int" where
  "cpp_div a b = sgn a * sgn b * (\<bar>a\<bar> div \<bar>b\<bar>)"

definition cpp_rem :: "int \<Rightarrow> int \<Rightarrow> int" where
  "cpp_rem a b = a - b * cpp_div a b"

definition INT_MAX :: int where
  "INT_MAX = 2147483647"

definition INT_MIN :: int where
  "INT_MIN = - 2147483648"

definition to_short :: "int \<Rightarrow> int" where
  "to_short v = (v + 32768) mod 65536 - 32768"

section \<open>Line tokenizer\<close>

definition nul :: char where
  "nul = CHR 0x00"

definition is_comment :: "char \<Rightarrow> bool" where
  "is_comment c \<longleftrightarrow> c = CHR ''#'' \<or> c = CHR ''/'' \<or> c = CHR '';''"

text \<open>\<^verbatim>\<open>isspace\<close> in the "C" locale (the program never sets another one): space, tab,
  line feed, vertical tab, form feed, carriage return.\<close>

definition isspace :: "char \<Rightarrow> bool" where
  "isspace c \<longleftrightarrow> c = CHR '' '' \<or> c = CHR 0x09 \<or> c = CHR 0x0A \<or> c = CHR 0x0B
      \<or> c = CHR 0x0C \<or> c = CHR 0x0D"

text \<open>The first inner loop of \<^verbatim>\<open>split\<close> steps over characters that are not the
  terminator and are spaces; the second one over the characters of a word.\<close>

definition space_char :: "char \<Rightarrow> bool" where
  "space_char c \<longleftrightarrow> c \<noteq> nul \<and> isspace c"

definition word_char :: "char \<Rightarrow> bool" where
  "word_char c \<longleftrightarrow> c \<noteq> nul \<and> \<not> isspace c \<and> \<not> is_comment c"

text \<open>\<^verbatim>\<open>split\<close> walks the C string of the line (\<^verbatim>\<open>input.c_str()\<close>): the end of the
  list stands for the terminating NUL, and a NUL inside the line ends the scan as well.
  The words are returned in the order they were pushed.\<close>

function split :: "string \<Rightarrow> string list" where
  "split s =
     (if dropWhile space_char s = []
         \<or> hd (dropWhile space_char s) = nul
         \<or> is_comment (hd (dropWhile space_char s))
      then []
      else takeWhile word_char (dropWhile space_char s)
             # split (dropWhile word_char (dropWhile space_char s)))"
  by pat_completeness auto
termination
proof (relation "measure length")
  show "wf (measure length)" by simp
next
  fix s :: string
  let ?t = "dropWhile space_char s"
  assume a: "\<not> (?t = [] \<or> hd ?t = nul \<or> is_comment (hd ?t))"
  then obtain c cs where t: "?t = c # cs" by (cases ?t) auto
  have "\<not> space_char c" using hd_dropWhile [of space_char s] t by simp
  with a t have "word_char c" by (simp add: word_char_def space_char_def)
  then have "length (dropWhile word_char ?t) \<le> length cs"
    using t length_dropWhile_le [of word_char cs] by simp
  moreover have "length ?t \<le> length s" by (rule length_dropWhile_le)
  ultimately have "length (dropWhile word_char ?t) < length s" using t by simp
  then show "(dropWhile word_char ?t, s) \<in> measure length" by simp
qed

declare split.simps [simp del]

text \<open>The tokenizer as the specification words it: the whitespace-delimited words of the
  text before the first comment character.\<close>

function words_of :: "string \<Rightarrow> string list" where
  "words_of s =
     (if dropWhile isspace s = [] then []
      else takeWhile (\<lambda>c. \<not> isspace c) (dropWhile isspace s)
             # words_of (dropWhile (\<lambda>c. \<not> isspace c) (dropWhile isspace s)))"
  by pat_completeness auto
termination
proof (relation "measure length")
  show "wf (measure length)" by simp
next
  fix s :: string
  let ?t = "dropWhile isspace s"
  assume "?t \<noteq> []"
  then obtain c cs where t: "?t = c # cs" by (cases ?t) auto
  have "\<not> isspace c" using hd_dropWhile [of isspace s] t by simp
  then have "length (dropWhile (\<lambda>c. \<not> isspace c) ?t) \<le> length cs"
    using t length_dropWhile_le [of "\<lambda>c. \<not> isspace c" cs] by simp
  moreover have "length ?t \<le> length s" by (rule length_dropWhile_le)
  ultimately have "length (dropWhile (\<lambda>c. \<not> isspace c) ?t) < length s" using t by simp
  then show "(dropWhile (\<lambda>c. \<not> isspace c) ?t, s) \<in> measure length" by simp
qed

declare words_of.simps [simp del]

definition tokens_spec :: "string \<Rightarrow> string list" where
  "tokens_spec line = words_of (takeWhile (\<lambda>c. \<not> is_comment c) line)"

text \<open>The text of a line as the tokenizer reads it: a C string ends at its first NUL.\<close>

definition c_str :: "string \<Rightarrow> string" where
  "c_str line = takeWhile (\<lambda>c. c \<noteq> nul) line"

section \<open>Mnemonic recognizer\<close>

datatype mnemonic =
    MNEMONIC_NONE
  | MNEMONIC_HLT
  | MNEMONIC_ADD
  | MNEMONIC_SUB
  | MNEMONIC_STA
  | MNEMONIC_LDA
  | MNEMONIC_BRA
  | MNEMONIC_BRZ
  | MNEMONIC_BRP
  | MNEMONIC_INP
  | MNEMONIC_OUT
  | MNEMONIC_DAT

definition to_upper :: "char \<Rightarrow> char" where
  "to_upper c =
     (if (97::nat) \<le> of_char c \<and> of_char c \<le> (122::nat)
      then char_of (of_char c - (32::nat)) else c)"

definition is_mnemonic :: "string \<Rightarrow> mnemonic" where
  "is_mnemonic word =
     (let w = map to_upper word in
      if w = ''HLT'' then MNEMONIC_HLT
      else if w = ''ADD'' then MNEMONIC_ADD
      else if w = ''SUB'' then MNEMONIC_SUB
      else if w = ''STA'' then MNEMONIC_STA
      else if w = ''LDA'' then MNEMONIC_LDA
      else if w = ''BRA'' then MNEMONIC_BRA
      else if w = ''BRZ'' then MNEMONIC_BRZ
      else if w = ''BRP'' then MNEMONIC_BRP
      else if w = ''INP'' then MNEMONIC_INP
      else if w = ''OUT'' then MNEMONIC_OUT
      else if w = ''DAT'' then MNEMONIC_DAT
      else MNEMONIC_NONE)"

section \<open>Assembler state\<close>

text \<open>What \<^verbatim>\<open>parse\<close> writes to the error stream: one entry for each error line, with
  the line number printed in it, and the closing summary.\<close>

datatype message =
    MoreThanTwoWords
  | WordByItself
  | LabelWithoutMnemonic
  | TooManyParameters
  | ProgramTooLong
  | NoParameterAccepted mnemonic
  | ParameterRequired mnemonic
  | DatOutOfRange
  | LabelTooLargeNumber string
  | LabelNotFound string
  | LabelOffsetTooLarge string int

datatype diagnostic = ErrorAt nat message | FoundErrors nat

text \<open>Behaviour the C++ standard leaves undefined, and the exception of the
  \<^verbatim>\<open>switch\<close>, are results of their own.\<close>

datatype failure = LogicError | IntOverflow | OutOfBounds

text \<open>The globals \<^verbatim>\<open>g_pc\<close> (an \<^verbatim>\<open>int\<close>) and \<^verbatim>\<open>g_program\<close> (\<^verbatim>\<open>short[100]\<close>),
  shared by the assembler and the interpreter.\<close>

record globals =
  g_pc :: int
  g_program :: "int list"

text \<open>The locals of \<^verbatim>\<open>parse\<close>. \<^verbatim>\<open>label_pc\<close> is a \<^verbatim>\<open>std::map\<close> that is only
  assigned (\<open>AList.update\<close>) and searched (\<open>map_of\<close>), kept as an association list
  with one entry for each key; \<^verbatim>\<open>label_ref\<close> is a \<^verbatim>\<open>std::map\<close> that is iterated in
  the order of its keys, kept as a list sorted by key. \<open>diags\<close> is the error stream.\<close>

record asm_state = globals +
  errcount :: nat
  line :: nat
  label_pc :: "(string \<times> int) list"
  label_ref :: "(int \<times> string) list"
  diags :: "diagnostic list"

text \<open>An index into \<^verbatim>\<open>g_program\<close> is inside the array.\<close>

definition in_image :: "int \<Rightarrow> bool" where
  "in_image i \<longleftrightarrow> 0 \<le> i \<and> i < 100"

definition initial_asm :: asm_state where
  "initial_asm = \<lparr> g_pc = 0, g_program = replicate 100 0, errcount = 0, line = 0,
     label_pc = [], label_ref = [], diags = [] \<rparr>"

text \<open>\<^verbatim>\<open>m[k] = v\<close> on an ordered map.\<close>

fun map_set :: "int \<Rightarrow> 'v \<Rightarrow> (int \<times> 'v) list \<Rightarrow> (int \<times> 'v) list" where
  "map_set k v [] = [(k, v)]"
| "map_set k v ((k', v') # rest) =
     (if k < k' then (k, v) # (k', v') # rest
      else if k = k' then (k, v) # rest
      else (k', v') # map_set k v rest)"

definition report :: "message \<Rightarrow> asm_state \<Rightarrow> asm_state" where
  "report m st = st\<lparr>diags := diags st @ [ErrorAt (line st) m]\<rparr>"

text \<open>\<^verbatim>\<open>++errcount\<close> followed by the error line.\<close>

definition count_error :: "message \<Rightarrow> asm_state \<Rightarrow> asm_state" where
  "count_error m st = report m (st\<lparr>errcount := errcount st + 1\<rparr>)"

section \<open>Pass 1\<close>

text \<open>\<^verbatim>\<open>atoi\<close>: optional white space, an optional sign, then the longest run of digits.
  A value that does not fit \<^verbatim>\<open>int\<close> is undefined behaviour (\<open>None\<close>).\<close>

definition is_digit :: "char \<Rightarrow> bool" where
  "is_digit c \<longleftrightarrow> (48::nat) \<le> of_char c \<and> of_char c \<le> (57::nat)"

definition digits_value :: "string \<Rightarrow> int" where
  "digits_value ds = foldl (\<lambda>n c. n * 10 + of_char c - 48) 0 ds"

definition atoi :: "string \<Rightarrow> int option" where
  "atoi s =
     (let t = dropWhile isspace s;
          neg = (t \<noteq> [] \<and> hd t = CHR ''-'');
          u = (if t \<noteq> [] \<and> (hd t = CHR ''-'' \<or> hd t = CHR ''+'') then tl t else t);
          n = digits_value (takeWhile is_digit u);
          v = (if neg then - n else n)
      in if INT_MIN \<le> v \<and> v \<le> INT_MAX then Some v else None)"

text \<open>\<^verbatim>\<open>g_program[g_pc] = v; ++g_pc;\<close>\<close>

definition emit :: "int \<Rightarrow> asm_state \<Rightarrow> asm_state" where
  "emit v st =
     st\<lparr>g_program := (g_program st)[nat (g_pc st) := to_short v], g_pc := g_pc st + 1\<rparr>"

text \<open>The cases of HLT, INP and OUT: a parameter is an error, otherwise the cell is
  written.\<close>

definition emit_plain :: "mnemonic \<Rightarrow> int \<Rightarrow> string \<Rightarrow> asm_state \<Rightarrow> asm_state" where
  "emit_plain instruction base parameter st =
     (if parameter \<noteq> [] then count_error (NoParameterAccepted instruction) st
      else emit base st)"

text \<open>The cases of ADD, SUB, STA, LDA, BRA, BRZ and BRP: a missing parameter is an error,
  otherwise the cell is written and the parameter recorded under the address of the
  cell.\<close>

definition emit_ref :: "mnemonic \<Rightarrow> int \<Rightarrow> string \<Rightarrow> asm_state \<Rightarrow> asm_state" where
  "emit_ref instruction base parameter st =
     (if parameter = [] then count_error (ParameterRequired instruction) st
      else emit base (st\<lparr>label_ref := map_set (g_pc st) parameter (label_ref st)\<rparr>))"

text \<open>The case of DAT. The error of a value above 999 is printed without
  \<^verbatim>\<open>++errcount\<close>.\<close>

definition emit_dat :: "string \<Rightarrow> asm_state \<Rightarrow> failure + asm_state" where
  "emit_dat parameter st =
     (if parameter = [] then Inr (emit 0 st)
      else case atoi parameter of
             None \<Rightarrow> Inl IntOverflow
           | Some v \<Rightarrow> if v > 999 then Inr (report DatOutOfRange st) else Inr (emit v st))"

text \<open>The \<^verbatim>\<open>switch\<close> of pass 1.\<close>

fun emit_instruction :: "mnemonic \<Rightarrow> string \<Rightarrow> asm_state \<Rightarrow> failure + asm_state" where
  "emit_instruction MNEMONIC_NONE parameter st = Inl LogicError"
| "emit_instruction MNEMONIC_HLT parameter st = Inr (emit_plain MNEMONIC_HLT 0 parameter st)"
| "emit_instruction MNEMONIC_ADD parameter st = Inr (emit_ref MNEMONIC_ADD 100 parameter st)"
| "emit_instruction MNEMONIC_SUB parameter st = Inr (emit_ref MNEMONIC_SUB 200 parameter st)"
| "emit_instruction MNEMONIC_STA parameter st = Inr (emit_ref MNEMONIC_STA 300 parameter st)"
| "emit_instruction MNEMONIC_LDA parameter st = Inr (emit_ref MNEMONIC_LDA 400 parameter st)"
| "emit_instruction MNEMONIC_BRA parameter st = Inr (emit_ref MNEMONIC_BRA 500 parameter st)"
| "emit_instruction MNEMONIC_BRZ parameter st = Inr (emit_ref MNEMONIC_BRZ 600 parameter st)"
| "emit_instruction MNEMONIC_BRP parameter st = Inr (emit_ref MNEMONIC_BRP 700 parameter st)"
| "emit_instruction MNEMONIC_INP parameter st = Inr (emit_plain MNEMONIC_INP 800 parameter st)"
| "emit_instruction MNEMONIC_OUT parameter st = Inr (emit_plain MNEMONIC_OUT 900 parameter st)"
| "emit_instruction MNEMONIC_DAT parameter st = emit_dat parameter st"

text \<open>The capacity check (\<^verbatim>\<open>g_pc >= std::size(g_program)\<close>, compared as unsigned, and
  printed without \<^verbatim>\<open>++errcount\<close>) and the \<^verbatim>\<open>switch\<close> behind it.\<close>

definition place :: "mnemonic \<Rightarrow> string \<Rightarrow> asm_state \<Rightarrow> failure + asm_state" where
  "place instruction parameter st =
     (if \<not> in_image (g_pc st) then Inr (report ProgramTooLong st)
      else emit_instruction instruction parameter st)"

text \<open>The first half of the body of the \<^verbatim>\<open>while\<close> loop sorts the words of a line:
  nothing to do, an error (after the label was stored, for a fourth word), or an
  instruction with its parameter (empty when there is none) and the label in front of
  it, if any.\<close>

datatype parsed_line =
    Blank
  | Bad message "string option"
  | Statement "string option" mnemonic string

definition classify :: "string list \<Rightarrow> parsed_line" where
  "classify words =
     (if words = [] then Blank
      else if is_mnemonic (words ! 0) \<noteq> MNEMONIC_NONE then
        (if length words > 2 then Bad MoreThanTwoWords None
         else Statement None (is_mnemonic (words ! 0))
                (if length words = 2 then words ! 1 else []))
      else if length words < 2 then Bad WordByItself None
      else if is_mnemonic (words ! 1) = MNEMONIC_NONE then Bad LabelWithoutMnemonic None
      else if length words = 3 then
        Statement (Some (words ! 0)) (is_mnemonic (words ! 1)) (words ! 2)
      else if length words > 3 then Bad TooManyParameters (Some (words ! 0))
      else Statement (Some (words ! 0)) (is_mnemonic (words ! 1)) [])"

text \<open>\<^verbatim>\<open>label_pc[words[0]] = g_pc\<close>, for a line that starts with a label.\<close>

fun set_label :: "string option \<Rightarrow> asm_state \<Rightarrow> asm_state" where
  "set_label None st = st"
| "set_label (Some w) st = st\<lparr>label_pc := AList.update w (g_pc st) (label_pc st)\<rparr>"

text \<open>The body of the \<^verbatim>\<open>while\<close> loop over the lines of the file.\<close>

definition pass1_line :: "string \<Rightarrow> asm_state \<Rightarrow> failure + asm_state" where
  "pass1_line input st0 =
     (let st = st0\<lparr>line := line st0 + 1\<rparr>
      in case classify (split input) of
           Blank \<Rightarrow> Inr st
         | Bad m label \<Rightarrow> Inr (count_error m (set_label label st))
         | Statement label instruction parameter \<Rightarrow>
             place instruction parameter (set_label label st))"

fun pass1 :: "string list \<Rightarrow> asm_state \<Rightarrow> failure + asm_state" where
  "pass1 [] st = Inr st"
| "pass1 (input # rest) st =
     (case pass1_line input st of Inl e \<Rightarrow> Inl e | Inr st' \<Rightarrow> pass1 rest st')"

section \<open>Pass 2\<close>

text \<open>The digit loop: \<^verbatim>\<open>number = number * 10 + c - '0'\<close> while the characters are
  digits, \<open>-1\<close> at the first other character. The sum is computed before \<^verbatim>\<open>'0'\<close> is
  subtracted; past \<^verbatim>\<open>INT_MAX\<close> it is a signed overflow (\<open>None\<close>).\<close>

fun scan_number :: "string \<Rightarrow> int \<Rightarrow> int option" where
  "scan_number [] number = Some number"
| "scan_number (c # cs) number =
     (if is_digit c
      then (if number * 10 + of_char c > INT_MAX then None
            else scan_number cs (number * 10 + of_char c - 48))
      else Some (- 1))"

text \<open>\<^verbatim>\<open>g_program[addr] += v\<close>\<close>

definition add_to_cell :: "int \<Rightarrow> int \<Rightarrow> asm_state \<Rightarrow> failure + asm_state" where
  "add_to_cell addr v st =
     (if in_image addr
      then Inr (st\<lparr>g_program :=
                  (g_program st)[nat addr := to_short (g_program st ! nat addr + v)]\<rparr>)
      else Inl OutOfBounds)"

text \<open>The body of the loop over \<^verbatim>\<open>label_ref\<close>.\<close>

definition resolve :: "int \<times> string \<Rightarrow> asm_state \<Rightarrow> failure + asm_state" where
  "resolve l st =
     (case scan_number (snd l) 0 of
        None \<Rightarrow> Inl IntOverflow
      | Some number \<Rightarrow>
          if number \<noteq> - 1 then
            (if number > 999 then Inr (count_error (LabelTooLargeNumber (snd l)) st)
             else add_to_cell (fst l) number st)
          else
            (case map_of (label_pc st) (snd l) of
               None \<Rightarrow> Inr (count_error (LabelNotFound (snd l)) st)
             | Some a \<Rightarrow>
                 add_to_cell (fst l) a
                   (if a > 99 then count_error (LabelOffsetTooLarge (snd l) a) st else st)))"

fun pass2 :: "(int \<times> string) list \<Rightarrow> asm_state \<Rightarrow> failure + asm_state" where
  "pass2 [] st = Inr st"
| "pass2 (l # rest) st =
     (case resolve l st of Inl e \<Rightarrow> Inl e | Inr st' \<Rightarrow> pass2 rest st')"

text \<open>\<^verbatim>\<open>parse\<close> on the lines of an opened file: both passes, then the verdict
  (\<open>True\<close> when \<^verbatim>\<open>errcount\<close> is 0).\<close>

definition finish :: "asm_state \<Rightarrow> bool \<times> asm_state" where
  "finish st =
     (if errcount st \<noteq> 0 then (False, st\<lparr>diags := diags st @ [FoundErrors (errcount st)]\<rparr>)
      else (True, st))"

definition parse_from :: "asm_state \<Rightarrow> string list \<Rightarrow> failure + bool \<times> asm_state" where
  "parse_from st src =
     (case pass1 src st of
        Inl e \<Rightarrow> Inl e
      | Inr st1 \<Rightarrow>
          (case pass2 (label_ref st1) st1 of
             Inl e \<Rightarrow> Inl e
           | Inr st2 \<Rightarrow> Inr (finish st2)))"

definition parse :: "string list \<Rightarrow> failure + bool \<times> asm_state" where
  "parse src = parse_from initial_asm src"

section \<open>Interpreter\<close>

text \<open>The standard streams: the values \<^verbatim>\<open>std::cin >> value\<close> will read, and what is
  written to \<^verbatim>\<open>std::cout\<close> (the prompt of INP, the line of OUT).\<close>

datatype event = Prompt | Printed int

record machine = globals +
  acc :: int
  overflow :: bool
  cin :: "int list"
  cout :: "event list"

text \<open>A cycle ends in the next state, in the \<^verbatim>\<open>return\<close> of HLT, or in no defined
  state: an index outside the array, or a read when no value is left.\<close>

datatype fault = FetchOutOfBounds | AccessOutOfBounds | InputExhausted

datatype outcome = Running machine | Halted machine | Faulted fault machine

text \<open>The \<^verbatim>\<open>switch\<close> of \<^verbatim>\<open>execute\<close>, entered after \<^verbatim>\<open>++g_pc\<close>. An instruction with
  no \<^verbatim>\<open>case\<close> falls through the \<^verbatim>\<open>switch\<close>.\<close>

definition dispatch :: "int \<Rightarrow> int \<Rightarrow> machine \<Rightarrow> outcome" where
  "dispatch instruction loc s1 =
     (if instruction = 0 then Halted s1
      else if instruction = 1 then
        (if \<not> in_image loc then Faulted AccessOutOfBounds s1
         else Running (s1\<lparr>overflow := acc s1 + g_program s1 ! nat loc > 999,
                           acc := cpp_rem (acc s1 + g_program s1 ! nat loc) 1000\<rparr>))
      else if instruction = 2 then
        (if \<not> in_image loc then Faulted AccessOutOfBounds s1
         else Running (s1\<lparr>overflow := acc s1 < g_program s1 ! nat loc,
                           acc := cpp_rem (acc s1 - g_program s1 ! nat loc) 1000\<rparr>))
      else if instruction = 3 then
        (if \<not> in_image loc then Faulted AccessOutOfBounds s1
         else Running (s1\<lparr>g_program := (g_program s1)[nat loc := to_short (acc s1)]\<rparr>))
      else if instruction = 4 then
        (if \<not> in_image loc then Faulted AccessOutOfBounds s1
         else Running (s1\<lparr>acc := g_program s1 ! nat loc\<rparr>))
      else if instruction = 5 then Running (s1\<lparr>g_pc := loc\<rparr>)
      else if instruction = 6 then
        (if acc s1 = 0 then Running (s1\<lparr>g_pc := loc\<rparr>) else Running s1)
      else if instruction = 7 then
        (if \<not> overflow s1 then Running (s1\<lparr>g_pc := loc\<rparr>) else Running s1)
      else if instruction = 8 then
        (case cin s1 of
           [] \<Rightarrow> Faulted InputExhausted (s1\<lparr>cout := cout s1 @ [Prompt]\<rparr>)
         | v # rest \<Rightarrow>
             Running (s1\<lparr>acc := cpp_rem v 1000, cin := rest, cout := cout s1 @ [Prompt]\<rparr>))
      else if instruction = 9 then
        Running (s1\<lparr>cout := cout s1 @ [Printed (acc s1)]\<rparr>)
      else Running s1)"

text \<open>The body of the \<^verbatim>\<open>for(;;)\<close> loop of \<^verbatim>\<open>execute\<close>: fetch and decode the cell at
  \<^verbatim>\<open>g_pc\<close>, increment \<^verbatim>\<open>g_pc\<close>, dispatch.\<close>

definition step :: "machine \<Rightarrow> outcome" where
  "step s =
     (if \<not> in_image (g_pc s) then Faulted FetchOutOfBounds s
      else dispatch (cpp_div (g_program s ! nat (g_pc s)) 100)
             (cpp_rem (g_program s ! nat (g_pc s)) 100)
             (s\<lparr>g_pc := g_pc s + 1\<rparr>))"

text \<open>The loop has no bound: \<open>run n\<close> performs at most \<open>n\<close> cycles and answers
  \<open>Running\<close> when the machine has neither halted nor faulted by then.\<close>

fun run :: "nat \<Rightarrow> machine \<Rightarrow> outcome" where
  "run 0 s = Running s"
| "run (Suc n) s =
     (case step s of
        Running s' \<Rightarrow> run n s'
      | Halted s' \<Rightarrow> Halted s'
      | Faulted f s' \<Rightarrow> Faulted f s')"

text \<open>The initialisation of \<^verbatim>\<open>execute\<close>, on the image the assembler left.\<close>

definition boot :: "int list \<Rightarrow> int list \<Rightarrow> machine" where
  "boot img inputs = \<lparr> g_pc = 0, g_program = img, acc = 0, overflow = False,
     cin = inputs, cout = [] \<rparr>"

definition execute :: "nat \<Rightarrow> int list \<Rightarrow> int list \<Rightarrow> outcome" where
  "execute fuel img inputs = run fuel (boot img inputs)"

text \<open>\<^verbatim>\<open>main\<close> without its command line: the interpreter runs only when \<^verbatim>\<open>parse\<close>
  returned true.\<close>

datatype exit = Exit1 "diagnostic list" | Executed outcome

definition lmc :: "nat \<Rightarrow> string list \<Rightarrow> int list \<Rightarrow> failure + exit" where
  "lmc fuel src inputs =
     (case parse src of
        Inl e \<Rightarrow> Inl e
      | Inr (ok, st) \<Rightarrow>
          if \<not> ok then Inr (Exit1 (diags st))
          else Inr (Executed (execute fuel (g_program st) inputs)))"

text \<open>The outputs of OUT among what was written.\<close>

fun printed :: "event list \<Rightarrow> int list" where
  "printed [] = []"
| "printed (Prompt # es) = printed es"
| "printed (Printed v # es) = v # printed es"

section \<open>Example programs and states\<close>

definition round_trip_src :: "string list" where
  "round_trip_src = [''INP'', ''STA 99'', ''LDA 99'', ''OUT'', ''HLT'']"

text \<open>A program that copies an OUT instruction into cell 99 and branches to it.\<close>

definition fall_off_src :: "string list" where
  "fall_off_src = [''LDA 3'', ''STA 99'', ''BRA 99'', ''DAT 900'']"

text \<open>A program that subtracts 1 from 0 and then adds 0.\<close>

definition borrow_src :: "string list" where
  "borrow_src = [''SUB 3'', ''ADD 4'', ''HLT'', ''DAT 1'', ''DAT 0'']"

definition borrow_image :: "int list" where
  "borrow_image = [203, 104, 0, 1] @ replicate 96 0"

text \<open>LDA 5, ADD 6, with 999 in cell 5 and 2 in cell 6.\<close>

definition wrap_image :: "int list" where
  "wrap_image = [405, 106, 0, 0, 0, 999, 2] @ replicate 93 0"

text \<open>The image of the one-line program \<^verbatim>\<open>ADD 999\<close>: its cell 0 decodes to instruction
  10.\<close>

definition stray_image :: "int list" where
  "stray_image = [1099] @ replicate 99 0"

text \<open>A pass 2 with one pending reference of each kind: a number above 999, an unknown
  label, a number, a label, and a label bound to address 100.\<close>

definition resolving_state :: asm_state where
  "resolving_state = \<lparr> g_pc = 5, g_program = [100, 500, 400, 300, 600] @ replicate 95 0,
     errcount = 0, line = 5, label_pc = [(''top'', 3), (''far'', 100)],
     label_ref = [(0, ''1000''), (1, ''nowhere''), (2, ''7''), (3, ''top''), (4, ''far'')],
     diags = [] \<rparr>"

text \<open>The characters before the end of the text of a line: neither a comment character
  nor the terminator.\<close>

definition text_char :: "char \<Rightarrow> bool" where
  "text_char c \<longleftrightarrow> \<not> is_comment c \<and> c \<noteq> nul"

section \<open>Predicates on sources, images and states\<close>

text \<open>The value pass 1 writes for a mnemonic, and the mnemonics whose parameter it records
  as a pending reference.\<close>

fun base_value :: "mnemonic \<Rightarrow> int" where
  "base_value MNEMONIC_NONE = 0"
| "base_value MNEMONIC_HLT = 0"
| "base_value MNEMONIC_ADD = 100"
| "base_value MNEMONIC_SUB = 200"
| "base_value MNEMONIC_STA = 300"
| "base_value MNEMONIC_LDA = 400"
| "base_value MNEMONIC_BRA = 500"
| "base_value MNEMONIC_BRZ = 600"
| "base_value MNEMONIC_BRP = 700"
| "base_value MNEMONIC_INP = 800"
| "base_value MNEMONIC_OUT = 900"
| "base_value MNEMONIC_DAT = 0"

definition takes_reference :: "mnemonic \<Rightarrow> bool" where
  "takes_reference i \<longleftrightarrow> i \<in> {MNEMONIC_ADD, MNEMONIC_SUB, MNEMONIC_STA, MNEMONIC_LDA,
     MNEMONIC_BRA, MNEMONIC_BRZ, MNEMONIC_BRP}"

text \<open>\<^verbatim>\<open>++line\<close>\<close>

definition next_line :: "asm_state \<Rightarrow> asm_state" where
  "next_line st = st\<lparr>line := line st + 1\<rparr>"





text \<open>A line whose numbers fit \<^verbatim>\<open>int\<close> and keep the cell it writes in [0, 999]: the value
  that \<^verbatim>\<open>atoi\<close> reads for a DAT is in the range of \<^verbatim>\<open>int\<close> and not negative; on the
  parameter of an instruction the digit loop of pass 2 stays within \<^verbatim>\<open>int\<close>, and a number
  given as the parameter, added to the base value of the instruction, is at most 999.\<close>

definition tame_line :: "string \<Rightarrow> bool" where
  "tame_line input \<longleftrightarrow>
     (case classify (split input) of
        Statement label instruction parameter \<Rightarrow>
          (if instruction = MNEMONIC_DAT then
             (case atoi parameter of Some v \<Rightarrow> 0 \<le> v | None \<Rightarrow> False)
           else if takes_reference instruction then
             (case scan_number parameter 0 of
                Some n \<Rightarrow> n = - 1 \<or> base_value instruction + n \<le> 999
              | None \<Rightarrow> False)
           else True)
      | _ \<Rightarrow> True)"

text \<open>The pending references lie in the image, and the digit loop of pass 2 stays within
  \<^verbatim>\<open>int\<close> on each of them.\<close>

definition scannable :: "asm_state \<Rightarrow> bool" where
  "scannable st \<longleftrightarrow>
     (\<forall>r\<in>set (label_ref st). in_image (fst r) \<and> scan_number (snd r) 0 \<noteq> None)"



text \<open>An instruction with its parameter is one that writes a cell when there is room:
  pass 1 on it alone, from the empty image, advances the counter.\<close>

definition emits :: "mnemonic \<Rightarrow> string \<Rightarrow> bool" where
  "emits instruction parameter \<longleftrightarrow>
     (case emit_instruction instruction parameter initial_asm of
        Inl e \<Rightarrow> False
      | Inr st \<Rightarrow> g_pc st = 1)"











text \<open>The error lines that \<^verbatim>\<open>errcount\<close> counts: all but those of the capacity check and
  of the DAT range check. \<open>tallied\<close>: the counter agrees with the lines printed so far.\<close>

definition counted :: "diagnostic \<Rightarrow> bool" where
  "counted d \<longleftrightarrow>
     (case d of
        ErrorAt l m \<Rightarrow> m \<noteq> ProgramTooLong \<and> m \<noteq> DatOutOfRange
      | FoundErrors n \<Rightarrow> False)"

definition tallied :: "asm_state \<Rightarrow> bool" where
  "tallied st \<longleftrightarrow> errcount st = length (filter counted (diags st))"

text \<open>The base value of an instruction that takes a reference, and what pass 1 keeps on
  every source: the pending references are at addresses below \<^verbatim>\<open>g_pc\<close>, in cells that
  hold such a base value, and no label is bound beyond 100.\<close>

definition base_cell :: "int \<Rightarrow> bool" where
  "base_cell c \<longleftrightarrow> c \<in> {100, 200, 300, 400, 500, 600, 700}"

definition refs_placed :: "asm_state \<Rightarrow> bool" where
  "refs_placed st \<longleftrightarrow> length (g_program st) = 100 \<and> 0 \<le> g_pc st \<and> g_pc st \<le> 100
     \<and> (\<forall>r\<in>set (label_ref st). 0 \<le> fst r \<and> fst r < g_pc st \<and> snd r \<noteq> []
           \<and> base_cell (g_program st ! nat (fst r)))
     \<and> (\<forall>w a. map_of (label_pc st) w = Some a \<longrightarrow> 0 \<le> a \<and> a \<le> 100)"

section \<open>Truncating division and remainder\<close>

lemma cpp_div_nonneg: "0 \<le> a \<Longrightarrow> 0 < b \<Longrightarrow> cpp_div a b = a div b"
  by (cases "a = 0") (simp_all add: cpp_div_def)

lemma cpp_rem_nonneg: "0 \<le> a \<Longrightarrow> 0 < b \<Longrightarrow> cpp_rem a b = a mod b"
  by (simp add: cpp_rem_def cpp_div_nonneg minus_mult_div_eq_mod)

lemma cpp_div_neg: "a < 0 \<Longrightarrow> 0 < b \<Longrightarrow> cpp_div a b = - ((- a) div b)"
  by (simp add: cpp_div_def)

lemma cpp_rem_neg: "a < 0 \<Longrightarrow> 0 < b \<Longrightarrow> cpp_rem a b = - ((- a) mod b)"
proof -
  assume h: "a < 0" "0 < b"
  have "(- a) - b * ((- a) div b) = (- a) mod b" by (rule minus_mult_div_eq_mod)
  then show ?thesis using h by (simp add: cpp_rem_def cpp_div_neg)
qed

lemma cpp_div_neg_le: "a < 0 \<Longrightarrow> 0 < b \<Longrightarrow> cpp_div a b \<le> 0"
  by (simp add: cpp_div_neg pos_imp_zdiv_nonneg_iff)

text \<open>A cell that decodes to a positive instruction is positive itself, so its remainder
  is an index of the image.\<close>

lemma positive_opcode_operand: "0 < cpp_div c 100 \<Longrightarrow> in_image (cpp_rem c 100)"
proof -
  assume h: "0 < cpp_div c 100"
  have "0 \<le> c" using h cpp_div_neg_le [of c 100] by (cases "c < 0") auto
  then show ?thesis by (simp add: cpp_rem_nonneg in_image_def)
qed

lemma small_rem: "- 1000 < a \<Longrightarrow> a < 1000 \<Longrightarrow> cpp_rem a 1000 = a"
  by (cases "a < 0") (simp_all add: cpp_rem_nonneg cpp_rem_neg)

lemma decode_cell:
  assumes "0 \<le> x" and "x < 100" and "0 \<le> b"
  shows "cpp_div (b * 100 + x) 100 = b" and "cpp_rem (b * 100 + x) 100 = x"
proof -
  have nn: "0 \<le> b * 100 + x" using assms by simp
  show "cpp_div (b * 100 + x) 100 = b"
    using assms by (simp add: cpp_div_nonneg [OF nn] div_pos_pos_trivial)
  show "cpp_rem (b * 100 + x) 100 = x"
    using assms by (simp add: cpp_rem_nonneg [OF nn])
qed

section \<open>The interpreter cycle\<close>

lemma run_halted_more: "run n s = Halted h \<Longrightarrow> run (n + k) s = Halted h"
  by (induction n arbitrary: s) (auto split: outcome.splits)

lemma run_faulted_more: "run n s = Faulted f h \<Longrightarrow> run (n + k) s = Faulted f h"
  by (induction n arbitrary: s) (auto split: outcome.splits)

text \<open>
  C7. On every cycle whose fetch lies inside the image, the cell at \<^verbatim>\<open>g_pc\<close> is decoded
  as instruction = cell / 100 and operand = cell % 100 (C++ division and remainder), the
  program counter is incremented before the dispatch (HLT returns with the incremented
  counter, a branch overwrites it), each of the instructions 0 to 9 has the effect of HLT,
  ADD, SUB, STA, LDA, BRA, BRZ, BRP, INP, OUT, and any other instruction value changes
  nothing but the incremented counter and the loop goes on.
\<close>

theorem interpreter_cycle:
  assumes "in_image (g_pc s)"
    and "cell = g_program s ! nat (g_pc s)"
    and "opcode = cpp_div cell 100"
    and "operand = cpp_rem cell 100"
    and "s1 = s\<lparr>g_pc := g_pc s + 1\<rparr>"
  shows
    "(opcode = 0 \<longrightarrow> step s = Halted s1) \<and>
     (opcode = 1 \<longrightarrow> step s = Running (s1\<lparr>overflow := acc s + g_program s ! nat operand > 999,
         acc := cpp_rem (acc s + g_program s ! nat operand) 1000\<rparr>)) \<and>
     (opcode = 2 \<longrightarrow> step s = Running (s1\<lparr>overflow := acc s < g_program s ! nat operand,
         acc := cpp_rem (acc s - g_program s ! nat operand) 1000\<rparr>)) \<and>
     (opcode = 3 \<longrightarrow> step s =
         Running (s1\<lparr>g_program := (g_program s)[nat operand := to_short (acc s)]\<rparr>)) \<and>
     (opcode = 4 \<longrightarrow> step s = Running (s1\<lparr>acc := g_program s ! nat operand\<rparr>)) \<and>
     (opcode = 5 \<longrightarrow> step s = Running (s\<lparr>g_pc := operand\<rparr>)) \<and>
     (opcode = 6 \<longrightarrow> step s = Running (if acc s = 0 then s\<lparr>g_pc := operand\<rparr> else s1)) \<and>
     (opcode = 7 \<longrightarrow> step s = Running (if \<not> overflow s then s\<lparr>g_pc := operand\<rparr> else s1)) \<and>
     (opcode = 8 \<longrightarrow> step s =
         (case cin s of
            [] \<Rightarrow> Faulted InputExhausted (s1\<lparr>cout := cout s @ [Prompt]\<rparr>)
          | v # rest \<Rightarrow> Running (s1\<lparr>acc := cpp_rem v 1000, cin := rest,
                                   cout := cout s @ [Prompt]\<rparr>))) \<and>
     (opcode = 9 \<longrightarrow> step s = Running (s1\<lparr>cout := cout s @ [Printed (acc s)]\<rparr>)) \<and>
     (opcode < 0 \<or> 9 < opcode \<longrightarrow> step s = Running s1)"
proof -
  have op: "0 < opcode \<Longrightarrow> in_image operand"
    using assms(2-4) positive_opcode_operand [of cell] by simp
  have st: "step s = dispatch opcode operand s1"
    using assms by (simp add: step_def)
  show ?thesis
    unfolding st using op assms(5) by (auto simp: dispatch_def split: list.splits)
qed

theorem interpreter_cycle_witness:
  "in_image (g_pc (boot stray_image []))
   \<and> cpp_div (g_program (boot stray_image []) ! nat (g_pc (boot stray_image []))) 100 = 10
   \<and> step (boot stray_image []) = Running ((boot stray_image [])\<lparr>g_pc := 1\<rparr>)"
proof -
  have h: "in_image (g_pc (boot stray_image []))"
    by (simp add: boot_def in_image_def)
  have d: "cpp_div (g_program (boot stray_image []) ! nat (g_pc (boot stray_image []))) 100 = 10"
    by (simp add: boot_def stray_image_def cpp_div_def)
  from interpreter_cycle [OF h refl refl refl refl] d
  have "step (boot stray_image []) =
      Running ((boot stray_image [])\<lparr>g_pc := g_pc (boot stray_image []) + 1\<rparr>)"
    by simp
  then show ?thesis using h d by (simp add: boot_def)
qed

text \<open>The operand of ADD, SUB, STA and LDA is always an index of the image, whatever the
  cells hold; the only access outside the image is a fetch.\<close>

lemma step_never_faults_on_operand: "step s \<noteq> Faulted AccessOutOfBounds s'"
proof (cases "in_image (g_pc s)")
  case False
  then show ?thesis by (simp add: step_def)
next
  case True
  have op: "0 < cpp_div (g_program s ! nat (g_pc s)) 100
      \<Longrightarrow> in_image (cpp_rem (g_program s ! nat (g_pc s)) 100)"
    by (rule positive_opcode_operand)
  show ?thesis
    using True op by (auto simp: step_def dispatch_def split: list.splits)
qed

text \<open>
  C3 (amended). For every execution of SUB with accumulator \<open>a\<close> and operand cell \<open>m\<close>,
  both in [0, 999], the overflow flag becomes \<open>a < m\<close> and the accumulator becomes \<open>a - m\<close>
  (the C++ remainder of \<open>a - m\<close> by 1000), a value in [-999, 999]: it is
  \<open>(a - m) mod 1000\<close> when \<open>m \<le> a\<close>, and negative, hence different from
  \<open>(a - m) mod 1000\<close>, when \<open>a < m\<close>.
\<close>

theorem sub_cycle:
  assumes "in_image (g_pc s)"
    and "cpp_div (g_program s ! nat (g_pc s)) 100 = 2"
    and "m = g_program s ! nat (cpp_rem (g_program s ! nat (g_pc s)) 100)"
    and "0 \<le> acc s" and "acc s \<le> 999" and "0 \<le> m" and "m \<le> 999"
  shows "step s = Running (s\<lparr>g_pc := g_pc s + 1, overflow := acc s < m, acc := acc s - m\<rparr>)
     \<and> - 999 \<le> acc s - m \<and> acc s - m \<le> 999
     \<and> (m \<le> acc s \<longrightarrow> acc s - m = (acc s - m) mod 1000)
     \<and> (acc s < m \<longrightarrow> acc s - m < 0 \<and> acc s - m \<noteq> (acc s - m) mod 1000)"
proof -
  have op: "in_image (cpp_rem (g_program s ! nat (g_pc s)) 100)"
    using assms(2) positive_opcode_operand [of "g_program s ! nat (g_pc s)"] by simp
  have r: "cpp_rem (acc s - m) 1000 = acc s - m"
    using assms(4-7) by (intro small_rem) auto
  have "step s = Running (s\<lparr>g_pc := g_pc s + 1, overflow := acc s < m, acc := acc s - m\<rparr>)"
    using assms(1-3) op r by (simp add: step_def dispatch_def)
  moreover have "acc s < m \<Longrightarrow> acc s - m \<noteq> (acc s - m) mod 1000"
  proof -
    assume "acc s < m"
    have "0 \<le> (acc s - m) mod 1000" by simp
    then show ?thesis using \<open>acc s < m\<close> by linarith
  qed
  ultimately show ?thesis using assms(4-7) by auto
qed

theorem sub_cycle_witness:
  "in_image (g_pc (boot borrow_image []))
   \<and> cpp_div (g_program (boot borrow_image []) ! nat (g_pc (boot borrow_image []))) 100 = 2
   \<and> acc (boot borrow_image []) = 0
   \<and> g_program (boot borrow_image []) ! 3 = 1
   \<and> step (boot borrow_image []) =
       Running ((boot borrow_image [])\<lparr>g_pc := 1, overflow := True, acc := - 1\<rparr>)"
proof -
  let ?s = "boot borrow_image []"
  have h1: "in_image (g_pc ?s)" by (simp add: boot_def in_image_def)
  have h2: "cpp_div (g_program ?s ! nat (g_pc ?s)) 100 = 2"
    by (simp add: boot_def borrow_image_def cpp_div_def)
  have h3: "(1::int) = g_program ?s ! nat (cpp_rem (g_program ?s ! nat (g_pc ?s)) 100)"
    by (simp add: boot_def borrow_image_def cpp_div_def cpp_rem_def)
  have h4: "0 \<le> acc ?s" "acc ?s \<le> 999" by (simp_all add: boot_def)
  from sub_cycle [OF h1 h2 h3 h4] show ?thesis
    using h1 h2 by (simp add: boot_def borrow_image_def)
qed

text \<open>The claim as stated fails on the program \<^verbatim>\<open>SUB 3, ADD 4, HLT, DAT 1, DAT 0\<close>: its
  first cycle subtracts 1 from 0 and leaves -1 in the accumulator, not 999.\<close>

theorem sub_borrow_counterexample:
  "parse borrow_src =
     Inr (True, \<lparr> g_pc = 5, g_program = borrow_image, errcount = 0,
       line = 5, label_pc = [], label_ref = [(0, ''3''), (1, ''4'')], diags = [] \<rparr>)
   \<and> step (boot borrow_image []) =
       Running \<lparr> g_pc = 1, g_program = borrow_image, acc = - 1, overflow = True, cin = [],
         cout = [] \<rparr>
   \<and> (0 - 1) mod 1000 = (999 :: int)"
  by code_simp

lemma lda_add_example:
  assumes h: "in_image (g_pc s) \<and> in_image (g_pc s + 1)
      \<and> g_program s ! nat (g_pc s) = 400 + x \<and> in_image x
      \<and> g_program s ! nat (g_pc s + 1) = 100 + y \<and> in_image y
      \<and> g_program s ! nat x = 999 \<and> g_program s ! nat y = 2"
  shows "run 2 s = Running (s\<lparr>g_pc := g_pc s + 2, overflow := True, acc := 1\<rparr>)"
proof -
  have xb: "0 \<le> x" "x < 100" and yb: "0 \<le> y" "y < 100"
    using h by (simp_all add: in_image_def)
  have dx: "cpp_div (400 + x) 100 = 4" "cpp_rem (400 + x) 100 = x"
    using decode_cell [of x 4] xb by simp_all
  have dy: "cpp_div (100 + y) 100 = 1" "cpp_rem (100 + y) 100 = y"
    using decode_cell [of y 1] yb by simp_all
  have 1: "step s = Running (s\<lparr>g_pc := g_pc s + 1, acc := 999\<rparr>)"
    using h dx by (simp add: step_def dispatch_def)
  have 2: "step (s\<lparr>g_pc := g_pc s + 1, acc := 999\<rparr>) =
      Running (s\<lparr>g_pc := g_pc s + 2, overflow := True, acc := 1\<rparr>)"
    using h dy by (simp add: step_def dispatch_def cpp_rem_nonneg)
  have "run (Suc (Suc 0)) s = Running (s\<lparr>g_pc := g_pc s + 2, overflow := True, acc := 1\<rparr>)"
    by (simp add: 1 2)
  then show ?thesis by (simp add: numeral_2_eq_2)
qed

text \<open>
  C6 (amended). For every execution of ADD with accumulator \<open>a\<close> and operand cell \<open>m\<close>,
  the overflow flag becomes \<open>a + m > 999\<close> and the accumulator becomes the C++ remainder of
  \<open>a + m\<close> by 1000: that is \<open>(a + m) mod 1000\<close> when \<open>a + m\<close> is not negative (so whenever
  both are in [0, 999]), and \<open>- ((- (a + m)) mod 1000)\<close> when it is. In particular LDA of
  a cell holding 999 followed by ADD of a cell holding 2 leaves overflow true and the
  accumulator 1.
\<close>

theorem add_cycle:
  "(in_image (g_pc s) \<and> cpp_div (g_program s ! nat (g_pc s)) 100 = 1
      \<and> m = g_program s ! nat (cpp_rem (g_program s ! nat (g_pc s)) 100) \<longrightarrow>
      step s = Running (s\<lparr>g_pc := g_pc s + 1, overflow := acc s + m > 999,
                          acc := cpp_rem (acc s + m) 1000\<rparr>)
      \<and> (0 \<le> acc s + m \<longrightarrow> cpp_rem (acc s + m) 1000 = (acc s + m) mod 1000)
      \<and> (acc s + m < 0 \<longrightarrow> cpp_rem (acc s + m) 1000 = - ((- (acc s + m)) mod 1000)))
   \<and> (in_image (g_pc s) \<and> in_image (g_pc s + 1)
      \<and> g_program s ! nat (g_pc s) = 400 + x \<and> in_image x
      \<and> g_program s ! nat (g_pc s + 1) = 100 + y \<and> in_image y
      \<and> g_program s ! nat x = 999 \<and> g_program s ! nat y = 2 \<longrightarrow>
      run 2 s = Running (s\<lparr>g_pc := g_pc s + 2, overflow := True, acc := 1\<rparr>))"
proof (intro conjI impI)
  assume h: "in_image (g_pc s) \<and> cpp_div (g_program s ! nat (g_pc s)) 100 = 1
      \<and> m = g_program s ! nat (cpp_rem (g_program s ! nat (g_pc s)) 100)"
  then have op: "in_image (cpp_rem (g_program s ! nat (g_pc s)) 100)"
    using positive_opcode_operand [of "g_program s ! nat (g_pc s)"] by simp
  show "step s = Running (s\<lparr>g_pc := g_pc s + 1, overflow := acc s + m > 999,
                          acc := cpp_rem (acc s + m) 1000\<rparr>)"
    using h op by (simp add: step_def dispatch_def)
next
  assume "0 \<le> acc s + m"
  then show "cpp_rem (acc s + m) 1000 = (acc s + m) mod 1000" by (simp add: cpp_rem_nonneg)
next
  assume "acc s + m < 0"
  then show "cpp_rem (acc s + m) 1000 = - ((- (acc s + m)) mod 1000)"
    by (simp add: cpp_rem_neg)
next
  assume "in_image (g_pc s) \<and> in_image (g_pc s + 1)
      \<and> g_program s ! nat (g_pc s) = 400 + x \<and> in_image x
      \<and> g_program s ! nat (g_pc s + 1) = 100 + y \<and> in_image y
      \<and> g_program s ! nat x = 999 \<and> g_program s ! nat y = 2"
  then show "run 2 s = Running (s\<lparr>g_pc := g_pc s + 2, overflow := True, acc := 1\<rparr>)"
    by (rule lda_add_example)
qed

theorem add_cycle_witness:
  "run 2 (boot wrap_image []) =
     Running \<lparr> g_pc = 2, g_program = wrap_image, acc = 1, overflow = True, cin = [],
       cout = [] \<rparr>
   \<and> step \<lparr> g_pc = 1, g_program = wrap_image, acc = 999, overflow = False, cin = [],
       cout = [] \<rparr> =
     Running \<lparr> g_pc = 2, g_program = wrap_image, acc = 1, overflow = True, cin = [],
       cout = [] \<rparr>"
proof -
  let ?s = "boot wrap_image []"
  let ?t = "\<lparr> g_pc = 1, g_program = wrap_image, acc = 999, overflow = False, cin = [],
       cout = [] \<rparr>"
  have a: "in_image (g_pc ?s) \<and> in_image (g_pc ?s + 1)
      \<and> g_program ?s ! nat (g_pc ?s) = 400 + 5 \<and> in_image 5
      \<and> g_program ?s ! nat (g_pc ?s + 1) = 100 + 6 \<and> in_image 6
      \<and> g_program ?s ! nat 5 = 999 \<and> g_program ?s ! nat 6 = 2"
    by (simp add: boot_def wrap_image_def in_image_def)
  have b: "in_image (g_pc ?t) \<and> cpp_div (g_program ?t ! nat (g_pc ?t)) 100 = 1
      \<and> (2::int) = g_program ?t ! nat (cpp_rem (g_program ?t ! nat (g_pc ?t)) 100)"
    by (simp add: wrap_image_def in_image_def cpp_div_def cpp_rem_def)
  have "run 2 ?s = Running (?s\<lparr>g_pc := g_pc ?s + 2, overflow := True, acc := 1\<rparr>)"
    using add_cycle [of ?s _ 5 6] a by blast
  moreover have "step ?t = Running (?t\<lparr>g_pc := g_pc ?t + 1, overflow := acc ?t + 2 > 999,
                          acc := cpp_rem (acc ?t + 2) 1000\<rparr>)"
    using add_cycle [of ?t 2] b by blast
  ultimately show ?thesis by (simp add: boot_def cpp_rem_def cpp_div_def)
qed

text \<open>The claim as stated fails on the second cycle of the same program: ADD of a cell
  holding 0 to the accumulator -1 leaves -1, not \<open>(- 1 + 0) mod 1000 = 999\<close>.\<close>

theorem add_negative_counterexample:
  "execute 1 borrow_image [] =
     Running \<lparr> g_pc = 1, g_program = borrow_image, acc = - 1, overflow = True, cin = [],
       cout = [] \<rparr>
   \<and> execute 2 borrow_image [] =
     Running \<lparr> g_pc = 2, g_program = borrow_image, acc = - 1, overflow = False, cin = [],
       cout = [] \<rparr>
   \<and> borrow_image ! 4 = 0
   \<and> (- 1 + 0) mod 1000 = (999 :: int)"
  by code_simp

text \<open>A branch is taken only on a cell of 500 or more, whose remainder is not negative:
  the program counter stays within 0 and 100, and 100 is the only index outside the image
  a fetch can meet.\<close>

lemma step_pc_range:
  assumes "step s = Running s'"
  shows "0 \<le> g_pc s' \<and> g_pc s' \<le> 100"
proof -
  let ?cell = "g_program s ! nat (g_pc s)"
  have pc: "in_image (g_pc s)" using assms by (auto simp: step_def split: if_splits)
  have op: "0 < cpp_div ?cell 100 \<Longrightarrow> in_image (cpp_rem ?cell 100)"
    by (rule positive_opcode_operand)
  show ?thesis
    using assms pc op
    by (auto simp: step_def dispatch_def in_image_def split: if_splits list.splits)
qed

lemma run_pc_range:
  "0 \<le> g_pc s \<and> g_pc s \<le> 100 \<Longrightarrow> run n s = Running s' \<Longrightarrow> 0 \<le> g_pc s' \<and> g_pc s' \<le> 100"
proof (induction n arbitrary: s)
  case 0
  then show ?case by simp
next
  case (Suc n)
  from Suc.prems(2) obtain s1 where 1: "step s = Running s1" and 2: "run n s1 = Running s'"
    by (auto split: outcome.splits)
  show ?case using Suc.IH [OF step_pc_range [OF 1] 2] .
qed

text \<open>
  C10. The program LDA 3, STA 99, BRA 99, DAT 900 assembles without any error; its run
  executes the OUT in cell 99, which leaves \<^verbatim>\<open>g_pc\<close> at 100, and the next cycle fetches
  \<^verbatim>\<open>g_program[100]\<close>, outside the image.
\<close>

theorem fall_off_the_image:
  "parse fall_off_src =
     Inr (True, \<lparr> g_pc = 4, g_program = [403, 399, 599, 900] @ replicate 96 0, errcount = 0,
       line = 4, label_pc = [], label_ref = [(0, ''3''), (1, ''99''), (2, ''99'')],
       diags = [] \<rparr>)
   \<and> lmc (5 + k) fall_off_src [] =
       Inr (Executed (Faulted FetchOutOfBounds \<lparr> g_pc = 100,
         g_program = [403, 399, 599, 900] @ replicate 95 0 @ [900], acc = 900,
         overflow = False, cin = [], cout = [Printed 900] \<rparr>))"
proof -
  have a: "parse fall_off_src =
     Inr (True, \<lparr> g_pc = 4, g_program = [403, 399, 599, 900] @ replicate 96 0, errcount = 0,
       line = 4, label_pc = [], label_ref = [(0, ''3''), (1, ''99''), (2, ''99'')],
       diags = [] \<rparr>)"
    by code_simp
  have "run 5 (boot ([403, 399, 599, 900] @ replicate 96 0) []) =
       Faulted FetchOutOfBounds \<lparr> g_pc = 100,
         g_program = [403, 399, 599, 900] @ replicate 95 0 @ [900], acc = 900,
         overflow = False, cin = [], cout = [Printed 900] \<rparr>"
    by code_simp
  then have b: "execute (5 + k) ([403, 399, 599, 900] @ replicate 96 0) [] =
       Faulted FetchOutOfBounds \<lparr> g_pc = 100,
         g_program = [403, 399, 599, 900] @ replicate 95 0 @ [900], acc = 900,
         overflow = False, cin = [], cout = [Printed 900] \<rparr>"
    unfolding execute_def by (rule run_faulted_more)
  show ?thesis using a b by (simp add: lmc_def)
qed

section \<open>The tokenizer\<close>

lemma isspace_text: "isspace c \<Longrightarrow> \<not> is_comment c \<and> c \<noteq> nul"
  by (auto simp: isspace_def is_comment_def nul_def)

lemma words_of_Nil: "words_of [] = []"
  by (simp add: words_of.simps)

lemma words_of_spaces:
  assumes "\<forall>c\<in>set ws. isspace c"
  shows "words_of (ws @ r) = words_of r"
proof -
  have "dropWhile isspace (ws @ r) = dropWhile isspace r"
    using assms by (simp add: dropWhile_append2)
  then show ?thesis
    using words_of.simps [of "ws @ r"] words_of.simps [of r] by simp
qed

lemma words_of_word:
  assumes "w \<noteq> []" and "\<forall>c\<in>set w. \<not> isspace c" and "r = [] \<or> isspace (hd r)"
  shows "words_of (w @ r) = w # words_of r"
proof -
  obtain c cs where w: "w = c # cs" using assms(1) by (cases w) auto
  have d: "dropWhile isspace (w @ r) = w @ r" using w assms(2) by simp
  have tr: "takeWhile (\<lambda>c. \<not> isspace c) r = []"
    using assms(3) by (cases r) auto
  have dr: "dropWhile (\<lambda>c. \<not> isspace c) r = r"
    using assms(3) by (cases r) auto
  have t: "takeWhile (\<lambda>c. \<not> isspace c) (w @ r) = w"
    using assms(2) tr by (simp add: takeWhile_append2)
  have e: "dropWhile (\<lambda>c. \<not> isspace c) (w @ r) = r"
    using assms(2) dr by (simp add: dropWhile_append2)
  show ?thesis
    using words_of.simps [of "w @ r"] d t e w by simp
qed

lemma takeWhile_twice: "takeWhile P (takeWhile Q xs) = takeWhile (\<lambda>x. P x \<and> Q x) xs"
  by (induction xs) auto

text \<open>The induction follows the outer loop of \<^verbatim>\<open>split\<close>: the spaces in front, then
  either the end of the text or one word and the rest of the line.\<close>

lemma split_words_of: "split s = words_of (takeWhile text_char s)"
proof (induction s rule: split.induct)
  case (1 s)
  let ?sp = "takeWhile space_char s"
  let ?t = "dropWhile space_char s"
  have sp_space: "\<forall>c\<in>set ?sp. isspace c"
    by (auto dest: set_takeWhileD simp: space_char_def)
  have sp_text: "\<And>c. c \<in> set ?sp \<Longrightarrow> text_char c"
    using sp_space isspace_text by (auto simp: text_char_def)
  have "takeWhile text_char (?sp @ ?t) = ?sp @ takeWhile text_char ?t"
    by (rule takeWhile_append2) (rule sp_text)
  then have "takeWhile text_char s = ?sp @ takeWhile text_char ?t"
    by (simp only: takeWhile_dropWhile_id)
  then have whole: "words_of (takeWhile text_char s) = words_of (takeWhile text_char ?t)"
    using words_of_spaces [OF sp_space] by simp
  show ?case
  proof (cases "?t = [] \<or> hd ?t = nul \<or> is_comment (hd ?t)")
    case True
    have "takeWhile text_char ?t = []"
    proof (cases ?t)
      case Nil
      then show ?thesis by (simp only: takeWhile.simps)
    next
      case (Cons d ds)
      with True have "d = nul \<or> is_comment d" by simp
      then have "\<not> text_char d" by (auto simp: text_char_def)
      then show ?thesis by (simp only: Cons takeWhile.simps if_False)
    qed
    then show ?thesis
      using True whole split.simps [of s] by (simp add: words_of_Nil)
  next
    case False
    let ?w = "takeWhile word_char ?t"
    let ?r = "dropWhile word_char ?t"
    obtain c cs where t: "?t = c # cs" using False by (cases ?t) auto
    have "\<not> space_char c" using hd_dropWhile [of space_char s] t by simp
    then have wc: "word_char c" using False t by (simp add: word_char_def space_char_def)
    then have wne: "?w \<noteq> []" using t by simp
    have w_nospace: "\<forall>c\<in>set ?w. \<not> isspace c"
      by (auto dest: set_takeWhileD simp: word_char_def)
    have w_text: "\<And>c. c \<in> set ?w \<Longrightarrow> text_char c"
      by (auto dest: set_takeWhileD simp: word_char_def text_char_def)
    have "takeWhile text_char (?w @ ?r) = ?w @ takeWhile text_char ?r"
      by (rule takeWhile_append2) (rule w_text)
    then have tt: "takeWhile text_char ?t = ?w @ takeWhile text_char ?r"
      by (simp only: takeWhile_dropWhile_id)
    have rest: "takeWhile text_char ?r = [] \<or> isspace (hd (takeWhile text_char ?r))"
    proof (cases ?r)
      case Nil
      then show ?thesis by (simp only: takeWhile.simps simp_thms)
    next
      case (Cons d ds)
      have nd: "\<not> word_char d" using hd_dropWhile [of word_char ?t] Cons by simp
      show ?thesis
      proof (cases "text_char d")
        case True
        with nd have "isspace d" by (auto simp: word_char_def text_char_def)
        then show ?thesis
          using True by (simp only: Cons takeWhile.simps if_True list.sel simp_thms)
      next
        case False
        then show ?thesis by (simp only: Cons takeWhile.simps if_False simp_thms)
      qed
    qed
    have "split s = ?w # split ?r" using False split.simps [of s] by simp
    also have "split ?r = words_of (takeWhile text_char ?r)" using "1.IH" False by simp
    also have "?w # words_of (takeWhile text_char ?r) = words_of (takeWhile text_char ?t)"
      using words_of_word [OF wne w_nospace rest] tt by simp
    finally show ?thesis using whole by simp
  qed
qed

lemma split_spec: "split ln = tokens_spec (c_str ln)"
  unfolding tokens_spec_def c_str_def takeWhile_twice split_words_of
  by (simp add: text_char_def [abs_def])

lemma c_str_id: "nul \<notin> set ln \<Longrightarrow> c_str ln = ln"
  unfolding c_str_def by (rule takeWhile_eq_all_conv [THEN iffD2]) auto

lemma tokens_blank:
  assumes "\<forall>c\<in>set t. isspace c"
  shows "tokens_spec t = []"
proof -
  have "takeWhile (\<lambda>c. \<not> is_comment c) t = t"
    by (rule takeWhile_eq_all_conv [THEN iffD2]) (use assms isspace_text in auto)
  moreover have "words_of (t @ []) = words_of []" using assms by (rule words_of_spaces)
  then have "words_of t = []" by (simp add: words_of_Nil)
  ultimately show ?thesis by (simp only: tokens_spec_def)
qed

lemma tokens_comment_first:
  assumes "\<forall>x\<in>set ws. isspace x" and "is_comment c"
  shows "tokens_spec (ws @ c # rest) = []"
proof -
  have "takeWhile (\<lambda>c. \<not> is_comment c) (ws @ c # rest)
      = ws @ takeWhile (\<lambda>c. \<not> is_comment c) (c # rest)"
    by (rule takeWhile_append2) (use assms isspace_text in auto)
  then have "takeWhile (\<lambda>c. \<not> is_comment c) (ws @ c # rest) = ws"
    using assms(2) by simp
  moreover have "words_of (ws @ []) = words_of []" using assms(1) by (rule words_of_spaces)
  then have "words_of ws = []" by (simp add: words_of_Nil)
  ultimately show ?thesis by (simp only: tokens_spec_def)
qed

text \<open>
  C9 (amended). For every line, read up to its first NUL character if it has one (the C
  string the tokenizer walks), \<^verbatim>\<open>split\<close> returns, in order, the whitespace-delimited
  words of the text before the first \<^verbatim>\<open>#\<close>, \<^verbatim>\<open>/\<close> or \<^verbatim>\<open>;\<close>, so a comment character
  inside a word cuts the word short; it returns no word for a blank line and for a line
  whose first character after the white space is a comment character.
\<close>

theorem split_refines_spec:
  "split ln = tokens_spec (c_str ln)
   \<and> (nul \<notin> set ln \<longrightarrow> split ln = tokens_spec ln)
   \<and> ((\<forall>c\<in>set (c_str ln). isspace c) \<longrightarrow> split ln = [])
   \<and> (\<forall>ws c rest. c_str ln = ws @ c # rest \<and> (\<forall>x\<in>set ws. isspace x) \<and> is_comment c
         \<longrightarrow> split ln = [])"
  using split_spec [of ln] c_str_id [of ln] tokens_blank [of "c_str ln"]
    tokens_comment_first
  by auto

theorem split_refines_spec_witness:
  "nul \<notin> set ''top  BRA top;again later''
   \<and> split ''top  BRA top;again later'' = [''top'', ''BRA'', ''top'']
   \<and> split ''   '' = []
   \<and> split ''  # remark'' = []"
proof -
  let ?l = "''top  BRA top;again later''"
  have n: "nul \<notin> set ?l" by (simp add: nul_def)
  have t: "tokens_spec ?l = [''top'', ''BRA'', ''top'']" by code_simp
  have "nul \<notin> set ?l \<longrightarrow> split ?l = tokens_spec ?l"
    using split_refines_spec [of ?l] by blast
  from this n have "split ?l = tokens_spec ?l" by (rule mp)
  then have a: "split ?l = [''top'', ''BRA'', ''top'']" by (simp only: t)
  have "\<forall>c\<in>set (c_str ''   ''). isspace c"
    by (simp add: c_str_def nul_def isspace_def)
  then have b: "split ''   '' = []"
    using split_refines_spec [of "''   ''"] by blast
  have "c_str ''  # remark'' = ''  '' @ CHR ''#'' # '' remark''
      \<and> (\<forall>x\<in>set ''  ''. isspace x) \<and> is_comment CHR ''#''"
    by (simp add: c_str_def nul_def isspace_def is_comment_def)
  then have c: "split ''  # remark'' = []"
    using split_refines_spec [of "''  # remark''"] by blast
  show ?thesis using n a b c by simp
qed

text \<open>The claim as stated fails on a line with a NUL character inside: the scan ends
  there, and the rest of the line, which holds no white space and no comment character, is
  not read.\<close>

theorem split_nul_counterexample:
  "split [CHR ''a'', nul, CHR ''b''] = [''a'']
   \<and> tokens_spec [CHR ''a'', nul, CHR ''b''] = [[CHR ''a'', nul, CHR ''b'']]"
  by code_simp

section \<open>Pass 2: one pending reference\<close>

lemma digit_code:
  assumes "is_digit c"
  shows "48 \<le> (of_char c :: int)" and "(of_char c :: int) \<le> 57"
proof -
  have "48 \<le> (of_char c :: nat) \<and> (of_char c :: nat) \<le> 57"
    using assms by (simp add: is_digit_def)
  then have "48 \<le> int (of_char c) \<and> int (of_char c) \<le> 57" by linarith
  then show "48 \<le> (of_char c :: int)" and "(of_char c :: int) \<le> 57"
    by (simp_all add: of_nat_of_char)
qed

lemma digits_from_mono:
  "\<forall>c\<in>set ds. is_digit c \<Longrightarrow> 0 \<le> n \<Longrightarrow>
     n \<le> foldl (\<lambda>n c. n * 10 + of_char c - 48) (n :: int) ds"
proof (induction ds arbitrary: n)
  case Nil
  then show ?case by simp
next
  case (Cons c cs)
  have d: "48 \<le> (of_char c :: int)" using Cons.prems(1) digit_code(1) [of c] by simp
  have "n * 10 + of_char c - 48
      \<le> foldl (\<lambda>n c. n * 10 + of_char c - 48) (n * 10 + of_char c - 48) cs"
    using Cons.prems d by (intro Cons.IH) auto
  then show ?case using Cons.prems(2) d by simp
qed

text \<open>On a token of digits the loop computes the decimal value, when it ends without an
  overflow.\<close>

lemma scan_number_digits:
  "\<forall>c\<in>set ds. is_digit c \<Longrightarrow> 0 \<le> n \<Longrightarrow> scan_number ds n = Some v \<Longrightarrow>
     v = foldl (\<lambda>n c. n * 10 + of_char c - 48) n ds"
proof (induction ds arbitrary: n)
  case Nil
  then show ?case by simp
next
  case (Cons c cs)
  have d: "48 \<le> (of_char c :: int)" using Cons.prems(1) digit_code(1) [of c] by simp
  have s: "scan_number cs (n * 10 + of_char c - 48) = Some v"
    using Cons.prems by (simp split: if_splits)
  have "v = foldl (\<lambda>n c. n * 10 + of_char c - 48) (n * 10 + of_char c - 48) cs"
    using Cons.prems d s by (intro Cons.IH) auto
  then show ?case by simp
qed

text \<open>It does not overflow when the value, with the 48 of \<^verbatim>\<open>'0'\<close> still added, fits
  \<^verbatim>\<open>int\<close>.\<close>

lemma scan_number_small:
  "\<forall>c\<in>set ds. is_digit c \<Longrightarrow> 0 \<le> n \<Longrightarrow>
     foldl (\<lambda>n c. n * 10 + of_char c - 48) n ds + 48 \<le> INT_MAX \<Longrightarrow>
     scan_number ds n = Some (foldl (\<lambda>n c. n * 10 + of_char c - 48) n ds)"
proof (induction ds arbitrary: n)
  case Nil
  then show ?case by simp
next
  case (Cons c cs)
  let ?n = "n * 10 + of_char c - 48"
  have d: "48 \<le> (of_char c :: int)" using Cons.prems(1) digit_code(1) [of c] by simp
  have m: "?n \<le> foldl (\<lambda>n c. n * 10 + of_char c - 48) ?n cs"
    using Cons.prems d by (intro digits_from_mono) auto
  have "scan_number cs ?n = Some (foldl (\<lambda>n c. n * 10 + of_char c - 48) ?n cs)"
    using Cons.prems d by (intro Cons.IH) auto
  moreover have "\<not> n * 10 + of_char c > INT_MAX" using m Cons.prems(3) by simp
  ultimately show ?case using Cons.prems(1) by simp
qed

lemma scan_number_other:
  "\<exists>c\<in>set ds. \<not> is_digit c \<Longrightarrow> scan_number ds n = Some v \<Longrightarrow> v = - 1"
  by (induction ds arbitrary: n) (auto split: if_splits)

lemma scan_number_nonneg:
  "\<forall>c\<in>set ds. is_digit c \<Longrightarrow> 0 \<le> n \<Longrightarrow> scan_number ds n = Some v \<Longrightarrow> 0 \<le> v"
  using scan_number_digits [of ds n v] digits_from_mono [of ds n] by simp

lemma to_short_id: "- 32768 \<le> v \<Longrightarrow> v \<le> 32767 \<Longrightarrow> to_short v = v"
  by (simp add: to_short_def)

lemma count_error_fields:
  "errcount (count_error m st) = errcount st + 1"
  "g_program (count_error m st) = g_program st"
  "g_pc (count_error m st) = g_pc st"
  "diags (count_error m st) = diags st @ [ErrorAt (line st) m]"
  "label_pc (count_error m st) = label_pc st"
  "label_ref (count_error m st) = label_ref st"
  "line (count_error m st) = line st"
  by (simp_all add: count_error_def report_def)

text \<open>The cases of one pending reference (address, token) whose digit loop stays within
  \<^verbatim>\<open>int\<close> and whose address is in the image: a token of digits with a value above 999
  is an error and the cell is left as it is; a token with a character that is no digit
  and that the label table does not hold is an error and the cell is left as it is; a
  label bound to an address above 99 is an error and the address is added to the cell all
  the same; in the cases that are not skipped the value (number or label address) is
  added to the cell, and on a base value opcode * 100 the sum is stored as it is. An
  error increments \<^verbatim>\<open>errcount\<close> and prints a line.\<close>

lemma resolve_cases:
  assumes "scan_number tok 0 \<noteq> None"
    and "in_image addr"
    and "base = g_program st ! nat addr"
  shows
    "((\<forall>c\<in>set tok. is_digit c) \<and> digits_value tok > 999 \<longrightarrow>
        resolve (addr, tok) st = Inr (count_error (LabelTooLargeNumber tok) st))
     \<and> ((\<forall>c\<in>set tok. is_digit c) \<and> digits_value tok \<le> 999 \<longrightarrow>
        resolve (addr, tok) st =
          Inr (st\<lparr>g_program := (g_program st)[nat addr := to_short (base + digits_value tok)]\<rparr>))
     \<and> ((\<exists>c\<in>set tok. \<not> is_digit c) \<and> map_of (label_pc st) tok = None \<longrightarrow>
        resolve (addr, tok) st = Inr (count_error (LabelNotFound tok) st))
     \<and> ((\<exists>c\<in>set tok. \<not> is_digit c) \<and> map_of (label_pc st) tok = Some a \<and> a > 99 \<longrightarrow>
        resolve (addr, tok) st =
          Inr ((count_error (LabelOffsetTooLarge tok a) st)
                 \<lparr>g_program := (g_program st)[nat addr := to_short (base + a)]\<rparr>))
     \<and> ((\<exists>c\<in>set tok. \<not> is_digit c) \<and> map_of (label_pc st) tok = Some a \<and> a \<le> 99 \<longrightarrow>
        resolve (addr, tok) st =
          Inr (st\<lparr>g_program := (g_program st)[nat addr := to_short (base + a)]\<rparr>))
     \<and> errcount (count_error m st) = errcount st + 1
     \<and> g_program (count_error m st) = g_program st
     \<and> diags (count_error m st) = diags st @ [ErrorAt (line st) m]
     \<and> (0 \<le> base \<and> base \<le> 900 \<and> 0 \<le> v \<and> v \<le> 999 \<longrightarrow> to_short (base + v) = base + v)"
proof -
  obtain n where n: "scan_number tok 0 = Some n" using assms(1) by auto
  have dig: "(\<forall>c\<in>set tok. is_digit c) \<Longrightarrow> n = digits_value tok \<and> n \<noteq> - 1"
    using scan_number_digits [of tok 0 n] scan_number_nonneg [of tok 0 n] n
    by (auto simp: digits_value_def)
  have oth: "(\<exists>c\<in>set tok. \<not> is_digit c) \<Longrightarrow> n = - 1"
    using scan_number_other [of tok 0 n] n by simp
  have 1: "(\<forall>c\<in>set tok. is_digit c) \<and> digits_value tok > 999 \<longrightarrow>
        resolve (addr, tok) st = Inr (count_error (LabelTooLargeNumber tok) st)"
    using dig n by (auto simp: resolve_def)
  have 2: "(\<forall>c\<in>set tok. is_digit c) \<and> digits_value tok \<le> 999 \<longrightarrow>
        resolve (addr, tok) st =
          Inr (st\<lparr>g_program := (g_program st)[nat addr := to_short (base + digits_value tok)]\<rparr>)"
    using dig n assms(2,3) by (auto simp: resolve_def add_to_cell_def)
  have 3: "(\<exists>c\<in>set tok. \<not> is_digit c) \<and> map_of (label_pc st) tok = None \<longrightarrow>
        resolve (addr, tok) st = Inr (count_error (LabelNotFound tok) st)"
    using oth n by (auto simp: resolve_def)
  have 4: "(\<exists>c\<in>set tok. \<not> is_digit c) \<and> map_of (label_pc st) tok = Some a \<and> a > 99 \<longrightarrow>
        resolve (addr, tok) st =
          Inr ((count_error (LabelOffsetTooLarge tok a) st)
                 \<lparr>g_program := (g_program st)[nat addr := to_short (base + a)]\<rparr>)"
    using oth n assms(2,3) by (auto simp: resolve_def add_to_cell_def count_error_fields)
  have 5: "(\<exists>c\<in>set tok. \<not> is_digit c) \<and> map_of (label_pc st) tok = Some a \<and> a \<le> 99 \<longrightarrow>
        resolve (addr, tok) st =
          Inr (st\<lparr>g_program := (g_program st)[nat addr := to_short (base + a)]\<rparr>)"
    using oth n assms(2,3) by (auto simp: resolve_def add_to_cell_def)
  have 6: "0 \<le> base \<and> base \<le> 900 \<and> 0 \<le> v \<and> v \<le> 999 \<longrightarrow> to_short (base + v) = base + v"
    by (auto intro: to_short_id)
  show ?thesis using 1 2 3 4 5 6 by (simp add: count_error_fields)
qed

lemma resolve_examples:
  "resolve (0, ''1000'') resolving_state =
     Inr (resolving_state\<lparr>errcount := 1,
       diags := [ErrorAt 5 (LabelTooLargeNumber ''1000'')]\<rparr>)
   \<and> resolve (1, ''nowhere'') resolving_state =
     Inr (resolving_state\<lparr>errcount := 1, diags := [ErrorAt 5 (LabelNotFound ''nowhere'')]\<rparr>)
   \<and> resolve (2, ''7'') resolving_state =
     Inr (resolving_state\<lparr>g_program := [100, 500, 407, 300, 600] @ replicate 95 0\<rparr>)
   \<and> resolve (3, ''top'') resolving_state =
     Inr (resolving_state\<lparr>g_program := [100, 500, 400, 303, 600] @ replicate 95 0\<rparr>)
   \<and> resolve (4, ''far'') resolving_state =
     Inr (resolving_state\<lparr>g_program := [100, 500, 400, 300, 700] @ replicate 95 0,
       errcount := 1, diags := [ErrorAt 5 (LabelOffsetTooLarge ''far'' 100)]\<rparr>)"
proof -
  let ?st = resolving_state
  have s: "scan_number ''1000'' 0 \<noteq> None" "scan_number ''nowhere'' 0 \<noteq> None"
    "scan_number ''7'' 0 \<noteq> None" "scan_number ''top'' 0 \<noteq> None"
    "scan_number ''far'' 0 \<noteq> None"
    by (simp_all add: is_digit_def INT_MAX_def)
  have i: "in_image 0" "in_image 1" "in_image 2" "in_image 3" "in_image 4"
    by (simp_all add: in_image_def)
  have d: "(\<forall>c\<in>set ''1000''. is_digit c) \<and> digits_value ''1000'' > 999"
    "(\<forall>c\<in>set ''7''. is_digit c) \<and> digits_value ''7'' \<le> 999"
    by (simp_all add: is_digit_def digits_value_def)
  have l: "(\<exists>c\<in>set ''nowhere''. \<not> is_digit c) \<and> map_of (label_pc ?st) ''nowhere'' = None"
    "(\<exists>c\<in>set ''top''. \<not> is_digit c) \<and> map_of (label_pc ?st) ''top'' = Some 3 \<and> (3::int) \<le> 99"
    "(\<exists>c\<in>set ''far''. \<not> is_digit c) \<and> map_of (label_pc ?st) ''far'' = Some 100
       \<and> (100::int) > 99"
    by (simp_all add: is_digit_def resolving_state_def)
  have 1: "resolve (0, ''1000'') ?st = Inr (count_error (LabelTooLargeNumber ''1000'') ?st)"
    using resolve_cases [OF s(1) i(1) refl, of ?st] d(1) by blast
  have 2: "resolve (1, ''nowhere'') ?st = Inr (count_error (LabelNotFound ''nowhere'') ?st)"
    using resolve_cases [OF s(2) i(2) refl, of ?st] l(1) by blast
  have 3: "resolve (2, ''7'') ?st =
      Inr (?st\<lparr>g_program :=
        (g_program ?st)[nat 2 := to_short (g_program ?st ! nat 2 + digits_value ''7'')]\<rparr>)"
    using resolve_cases [OF s(3) i(3) refl, of ?st] d(2) by blast
  have 4: "resolve (3, ''top'') ?st =
      Inr (?st\<lparr>g_program := (g_program ?st)[nat 3 := to_short (g_program ?st ! nat 3 + 3)]\<rparr>)"
    using resolve_cases [OF s(4) i(4) refl, of ?st 3] l(2) by blast
  have 5: "resolve (4, ''far'') ?st =
      Inr ((count_error (LabelOffsetTooLarge ''far'' 100) ?st)
        \<lparr>g_program := (g_program ?st)[nat 4 := to_short (g_program ?st ! nat 4 + 100)]\<rparr>)"
    using resolve_cases [OF s(5) i(5) refl, of ?st 100] l(3) by blast
  show ?thesis
    unfolding 1 2 3 4 5
    by (simp add: resolving_state_def count_error_def report_def to_short_def digits_value_def)
qed

text \<open>
  C4. The claim fails at the one-line program \<^verbatim>\<open>ADD 4294966296\<close>. Pass 1 writes 100 in
  cell 0 and records the token under address 0. The token is all digits and its value is
  above 999, but pass 2 computes the value in an \<^verbatim>\<open>int\<close>: the digit loop leaves the
  range of \<^verbatim>\<open>int\<close> before the comparison with 999 is reached, a signed overflow, and the
  assembler has no defined result where the claim has an error and a skipped reference.
  On \<^verbatim>\<open>ADD 1000\<close> the error is printed and counted and the cell keeps its 100; on
  \<^verbatim>\<open>ADD 1000, BRA nowhere, LDA 7, top STA top\<close> the two errors are counted, the two cells
  keep their base value, and 7 and the address of the label are added to the other two.
\<close>

theorem reference_overflow:
  "pass1 [''ADD 4294966296''] initial_asm =
     Inr \<lparr> g_pc = 1, g_program = [100] @ replicate 99 0, errcount = 0, line = 1,
       label_pc = [], label_ref = [(0, ''4294966296'')], diags = [] \<rparr>
   \<and> filter (\<lambda>c. \<not> is_digit c) ''4294966296'' = []
   \<and> digits_value ''4294966296'' = 4294966296
   \<and> scan_number ''4294966296'' 0 = None
   \<and> parse [''ADD 4294966296''] = Inl IntOverflow
   \<and> parse [''ADD 1000''] =
     Inr (False, \<lparr> g_pc = 1, g_program = [100] @ replicate 99 0, errcount = 1, line = 1,
       label_pc = [], label_ref = [(0, ''1000'')],
       diags = [ErrorAt 1 (LabelTooLargeNumber ''1000''), FoundErrors 1] \<rparr>)
   \<and> parse [''ADD 1000'', ''BRA nowhere'', ''LDA 7'', ''top STA top''] =
     Inr (False, \<lparr> g_pc = 4, g_program = [100, 500, 407, 303] @ replicate 96 0,
       errcount = 2, line = 4, label_pc = [(''top'', 3)],
       label_ref = [(0, ''1000''), (1, ''nowhere''), (2, ''7''), (3, ''top'')],
       diags = [ErrorAt 4 (LabelTooLargeNumber ''1000''), ErrorAt 4 (LabelNotFound ''nowhere''),
         FoundErrors 2] \<rparr>)"
  by code_simp

section \<open>Pass 1, line by line\<close>

text \<open>What a line can do to the state, when pass 1 goes on after it.\<close>

lemma emit_instruction_cases:
  assumes "emit_instruction i p st = Inr st'"
  shows "(\<exists>m. st' = count_error m st)
    \<or> st' = report DatOutOfRange st
    \<or> (\<not> takes_reference i \<and> i \<noteq> MNEMONIC_DAT \<and> p = [] \<and> st' = emit (base_value i) st)
    \<or> (i = MNEMONIC_DAT \<and> p = [] \<and> st' = emit 0 st)
    \<or> (\<exists>v. i = MNEMONIC_DAT \<and> p \<noteq> [] \<and> atoi p = Some v \<and> v \<le> 999 \<and> st' = emit v st)
    \<or> (takes_reference i \<and> p \<noteq> []
        \<and> st' = emit (base_value i) (st\<lparr>label_ref := map_set (g_pc st) p (label_ref st)\<rparr>))"
  using assms
  by (cases i)
     (auto simp: emit_plain_def emit_ref_def emit_dat_def takes_reference_def
           split: if_splits option.splits)

lemma pass1_line_cases:
  assumes "pass1_line input st = Inr st'"
  shows "st' = next_line st
    \<or> (\<exists>lab m. st' = count_error m (set_label lab (next_line st)))
    \<or> (\<exists>lab m. st' = report m (set_label lab (next_line st)))
    \<or> (\<exists>lab i p v. classify (split input) = Statement lab i p \<and> in_image (g_pc st)
          \<and> \<not> takes_reference i
          \<and> (if i = MNEMONIC_DAT then (p = [] \<and> v = 0) \<or> (p \<noteq> [] \<and> atoi p = Some v \<and> v \<le> 999)
              else p = [] \<and> v = base_value i)
          \<and> st' = emit v (set_label lab (next_line st)))
    \<or> (\<exists>lab i p. classify (split input) = Statement lab i p \<and> in_image (g_pc st)
          \<and> takes_reference i \<and> p \<noteq> []
          \<and> st' = emit (base_value i)
               ((set_label lab (next_line st))
                  \<lparr>label_ref := map_set (g_pc st) p (label_ref st)\<rparr>))"
  (is "?A \<or> ?B \<or> ?C \<or> ?D \<or> ?E")
proof (cases "classify (split input)")
  case Blank
  then have ?A using assms by (simp add: pass1_line_def next_line_def)
  then show ?thesis by (rule disjI1)
next
  case (Bad m lab)
  then have "st' = count_error m (set_label lab (next_line st))"
    using assms by (simp add: pass1_line_def next_line_def)
  then have ?B by blast
  then show ?thesis by (intro disjI1 disjI2)
next
  case (Statement lab i p)
  let ?st = "set_label lab (next_line st)"
  have pc: "g_pc ?st = g_pc st" and lr: "label_ref ?st = label_ref st"
    by (cases lab; simp add: next_line_def)+
  have pl: "place i p ?st = Inr st'"
    using assms Statement by (simp add: pass1_line_def next_line_def)
  show ?thesis
  proof (cases "in_image (g_pc st)")
    case False
    then have "st' = report ProgramTooLong ?st" using pl pc by (simp add: place_def)
    then have ?C by blast
    then show ?thesis by (intro disjI1 disjI2)
  next
    case True
    then have "emit_instruction i p ?st = Inr st'" using pl pc by (simp add: place_def)
    from emit_instruction_cases [OF this]
    consider (err) m where "st' = count_error m ?st"
      | (range) "st' = report DatOutOfRange ?st"
      | (plain) "\<not> takes_reference i" "i \<noteq> MNEMONIC_DAT" "p = []" "st' = emit (base_value i) ?st"
      | (dat0) "i = MNEMONIC_DAT" "p = []" "st' = emit 0 ?st"
      | (dat) v where "i = MNEMONIC_DAT" "p \<noteq> []" "atoi p = Some v" "v \<le> 999" "st' = emit v ?st"
      | (ref) "takes_reference i" "p \<noteq> []"
          "st' = emit (base_value i) (?st\<lparr>label_ref := map_set (g_pc ?st) p (label_ref ?st)\<rparr>)"
      by blast
    then show ?thesis
    proof cases
      case err
      then have ?B by blast
      then show ?thesis by (intro disjI1 disjI2)
    next
      case range
      then have ?C by blast
      then show ?thesis by (intro disjI1 disjI2)
    next
      case plain
      then have "classify (split input) = Statement lab i p \<and> in_image (g_pc st)
          \<and> \<not> takes_reference i
          \<and> (if i = MNEMONIC_DAT
              then (p = [] \<and> base_value i = 0) \<or> (p \<noteq> [] \<and> atoi p = Some (base_value i) \<and> base_value i \<le> 999)
              else p = [] \<and> base_value i = base_value i)
          \<and> st' = emit (base_value i) ?st"
        using Statement True by simp
      then have ?D by blast
      then show ?thesis by (intro disjI1 disjI2)
    next
      case dat0
      then have "classify (split input) = Statement lab i p \<and> in_image (g_pc st)
          \<and> \<not> takes_reference i
          \<and> (if i = MNEMONIC_DAT
              then (p = [] \<and> (0::int) = 0) \<or> (p \<noteq> [] \<and> atoi p = Some 0 \<and> (0::int) \<le> 999)
              else p = [] \<and> 0 = base_value i)
          \<and> st' = emit 0 ?st"
        using Statement True by (simp add: takes_reference_def)
      then have ?D by blast
      then show ?thesis by (intro disjI1 disjI2)
    next
      case dat
      then have "classify (split input) = Statement lab i p \<and> in_image (g_pc st)
          \<and> \<not> takes_reference i
          \<and> (if i = MNEMONIC_DAT
              then (p = [] \<and> v = 0) \<or> (p \<noteq> [] \<and> atoi p = Some v \<and> v \<le> 999)
              else p = [] \<and> v = base_value i)
          \<and> st' = emit v ?st"
        using Statement True by (simp add: takes_reference_def)
      then have ?D by blast
      then show ?thesis by (intro disjI1 disjI2)
    next
      case ref
      then have "classify (split input) = Statement lab i p \<and> in_image (g_pc st)
          \<and> takes_reference i \<and> p \<noteq> []
          \<and> st' = emit (base_value i) (?st\<lparr>label_ref := map_set (g_pc st) p (label_ref st)\<rparr>)"
        using Statement True pc lr by simp
      then have ?E by blast
      then show ?thesis by (intro disjI1 disjI2)
    qed
  qed
qed


lemma in_image_nat: "in_image i \<Longrightarrow> nat i < 100"
  unfolding in_image_def by linarith

lemma map_set_append:
  "\<forall>r\<in>set xs. fst r < k \<Longrightarrow> map_set k v xs = xs @ [(k, v)]"
  by (induction xs) auto

lemma map_set_set: "set (map_set k v xs) \<subseteq> insert (k, v) (set xs)"
  by (induction xs) (auto split: if_splits)

lemma base_value_range: "0 \<le> base_value i \<and> base_value i \<le> 900"
  by (cases i) simp_all

lemma base_value_base_cell: "takes_reference i \<Longrightarrow> base_cell (base_value i)"
  by (auto simp: takes_reference_def base_cell_def)

lemma refs_placed_pass1_line:
  assumes "refs_placed st" and "pass1_line input st = Inr st'"
  shows "refs_placed st'"
proof -
  have base: "\<And>lab. refs_placed (set_label lab (next_line st))"
    subgoal for lab
      using assms(1) by (cases lab) (auto simp: refs_placed_def next_line_def update_conv')
    done
  have pc: "\<And>lab. g_pc (set_label lab (next_line st)) = g_pc st"
    and lr: "\<And>lab. label_ref (set_label lab (next_line st)) = label_ref st"
    subgoal for lab by (cases lab; simp add: next_line_def)
    subgoal for lab by (cases lab; simp add: next_line_def)
    done
  have emitted: "\<And>lab v. in_image (g_pc st) \<Longrightarrow> refs_placed (emit v (set_label lab (next_line st)))"
    subgoal for lab v
      using base [of lab] pc [of lab]
      by (auto simp: refs_placed_def emit_def in_image_def)
    done
  from pass1_line_cases [OF assms(2)]
  consider (blank) "st' = next_line st"
    | (err) lab m where "st' = count_error m (set_label lab (next_line st))"
    | (rep) lab m where "st' = report m (set_label lab (next_line st))"
    | (plain) lab v where "in_image (g_pc st)" "st' = emit v (set_label lab (next_line st))"
    | (ref) lab i p where "in_image (g_pc st)" "takes_reference i" "p \<noteq> []"
        "st' = emit (base_value i)
               ((set_label lab (next_line st))\<lparr>label_ref := map_set (g_pc st) p (label_ref st)\<rparr>)"
    by blast
  then show ?thesis
  proof cases
    case blank
    then show ?thesis using base [of None] by simp
  next
    case err
    then show ?thesis using base [of lab] by (simp add: refs_placed_def count_error_def report_def)
  next
    case rep
    then show ?thesis using base [of lab] by (simp add: refs_placed_def report_def)
  next
    case plain
    then show ?thesis using emitted by simp
  next
    case ref
    let ?st = "set_label lab (next_line st)"
    have b: "refs_placed ?st" by (rule base)
    have len: "length (g_program ?st) = 100" using b by (simp add: refs_placed_def)
    have ms: "map_set (g_pc st) p (label_ref st) = label_ref st @ [(g_pc st, p)]"
      using b pc lr by (intro map_set_append) (simp add: refs_placed_def)
    have ts: "to_short (base_value i) = base_value i"
      using base_value_range [of i] by (simp add: to_short_def)
    have new: "(g_program ?st)[nat (g_pc st) := base_value i] ! nat (g_pc st) = base_value i"
      using in_image_nat [OF ref(1)] len by simp
    show ?thesis
      unfolding ref(4)
      using b pc [of lab] lr [of lab] ref(1,2,3) new base_value_base_cell [of i]
      by (auto simp: refs_placed_def emit_def ms ts in_image_def)
  qed
qed

lemma refs_placed_pass1:
  "refs_placed st \<Longrightarrow> pass1 src st = Inr st' \<Longrightarrow> refs_placed st'"
proof (induction src arbitrary: st)
  case Nil
  then show ?case by simp
next
  case (Cons input rest)
  from Cons.prems(2) obtain st1 where 1: "pass1_line input st = Inr st1"
    and 2: "pass1 rest st1 = Inr st'"
    by (auto split: sum.splits)
  have "refs_placed st1" using Cons.prems(1) 1 by (rule refs_placed_pass1_line)
  then show ?case using 2 by (rule Cons.IH)
qed

text \<open>Every reference pass 1 leaves pending is at an address of the image, where the cell
  holds the base value of an instruction, and no label is bound beyond 100.\<close>

lemma pending_references_placed:
  assumes "pass1 src initial_asm = Inr st" and "(addr, tok) \<in> set (label_ref st)"
  shows "in_image addr \<and> tok \<noteq> [] \<and> base_cell (g_program st ! nat addr)"
proof -
  have "refs_placed initial_asm" by (simp add: refs_placed_def initial_asm_def)
  then have "refs_placed st" using assms(1) by (rule refs_placed_pass1)
  then show ?thesis using assms(2) by (fastforce simp: refs_placed_def in_image_def)
qed

section \<open>The range of the cells\<close>


























text \<open>On lines whose numbers fit \<^verbatim>\<open>int\<close> the assembler has a defined result: no
  arithmetic of the two passes leaves the range of \<^verbatim>\<open>int\<close>, and no cell outside the image
  is written.\<close>

lemma classify_mnemonic: "classify ws = Statement lab i p \<Longrightarrow> i \<noteq> MNEMONIC_NONE"
  by (auto simp: classify_def split: if_splits)

lemma emit_instruction_defined:
  assumes "i \<noteq> MNEMONIC_NONE" and "i = MNEMONIC_DAT \<longrightarrow> atoi p \<noteq> None"
  shows "\<exists>st'. emit_instruction i p st = Inr st'"
  using assms by (cases i) (auto simp: emit_dat_def split: option.splits)

lemma pass1_line_defined:
  assumes "tame_line input"
  shows "\<exists>st'. pass1_line input st = Inr st'"
proof (cases "classify (split input)")
  case Blank
  then show ?thesis by (simp add: pass1_line_def)
next
  case (Bad m lab)
  then show ?thesis by (simp add: pass1_line_def)
next
  case (Statement lab i p)
  have "i \<noteq> MNEMONIC_NONE" using Statement by (rule classify_mnemonic)
  moreover have "i = MNEMONIC_DAT \<longrightarrow> atoi p \<noteq> None"
    using assms Statement by (auto simp: tame_line_def split: option.splits)
  ultimately have "\<exists>st'. emit_instruction i p (set_label lab (st\<lparr>line := line st + 1\<rparr>)) = Inr st'"
    by (rule emit_instruction_defined)
  then show ?thesis using Statement by (auto simp: pass1_line_def place_def Let_def)
qed

lemma scannable_pass1_line:
  assumes "scannable st" and "tame_line input" and "pass1_line input st = Inr st'"
  shows "scannable st'"
proof -
  have lr: "\<And>lab. label_ref (set_label lab (next_line st)) = label_ref st"
    subgoal for lab by (cases lab; simp add: next_line_def)
    done
  from pass1_line_cases [OF assms(3)]
  consider (blank) "st' = next_line st"
    | (err) lab m where "st' = count_error m (set_label lab (next_line st))"
    | (rep) lab m where "st' = report m (set_label lab (next_line st))"
    | (plain) lab v where "st' = emit v (set_label lab (next_line st))"
    | (ref) lab i p where "classify (split input) = Statement lab i p"
        "in_image (g_pc st)" "takes_reference i" "p \<noteq> []"
        "st' = emit (base_value i)
               ((set_label lab (next_line st))\<lparr>label_ref := map_set (g_pc st) p (label_ref st)\<rparr>)"
    by blast
  then show ?thesis
  proof cases
    case blank
    then show ?thesis using assms(1) by (simp add: scannable_def next_line_def)
  next
    case err
    then show ?thesis using assms(1) lr by (simp add: scannable_def count_error_fields)
  next
    case rep
    then show ?thesis using assms(1) lr by (simp add: scannable_def report_def)
  next
    case plain
    then show ?thesis using assms(1) lr by (simp add: scannable_def emit_def)
  next
    case ref
    have "i \<noteq> MNEMONIC_DAT" using ref(3) by (auto simp: takes_reference_def)
    then have sc: "scan_number p 0 \<noteq> None"
      using ref(1,3) assms(2) by (auto simp: tame_line_def split: option.splits)
    have lr': "label_ref st' = map_set (g_pc st) p (label_ref st)"
      unfolding ref(5) by (simp add: emit_def)
    show ?thesis
      unfolding scannable_def lr'
      using map_set_set [of "g_pc st" p "label_ref st"] assms(1) ref(2) sc
      by (auto simp: scannable_def)
  qed
qed

lemma pass1_defined:
  "scannable st \<Longrightarrow> \<forall>input\<in>set src. tame_line input \<Longrightarrow>
     \<exists>st'. pass1 src st = Inr st' \<and> scannable st'"
proof (induction src arbitrary: st)
  case Nil
  then show ?case by simp
next
  case (Cons input rest)
  have t: "tame_line input" using Cons.prems(2) by simp
  obtain st1 where 1: "pass1_line input st = Inr st1"
    using pass1_line_defined [OF t] by blast
  have "scannable st1" using Cons.prems(1) t 1 by (rule scannable_pass1_line)
  then have "\<exists>st'. pass1 rest st1 = Inr st' \<and> scannable st'"
    using Cons.prems(2) by (intro Cons.IH) simp_all
  then show ?case using 1 by simp
qed

lemma resolve_defined:
  assumes "in_image (fst l)" and "scan_number (snd l) 0 \<noteq> None"
  shows "\<exists>st'. resolve l st = Inr st'"
  using assms by (auto simp: resolve_def add_to_cell_def split: option.splits)

lemma pass2_defined:
  "\<forall>r\<in>set refs. in_image (fst r) \<and> scan_number (snd r) 0 \<noteq> None \<Longrightarrow>
     \<exists>st'. pass2 refs st = Inr st'"
proof (induction refs arbitrary: st)
  case Nil
  then show ?case by simp
next
  case (Cons l rest)
  obtain st1 where 1: "resolve l st = Inr st1"
    using resolve_defined [of l st] Cons.prems by auto
  have "\<exists>st'. pass2 rest st1 = Inr st'" using Cons.prems by (intro Cons.IH) simp
  then show ?case using 1 by simp
qed

lemma tame_source_defined:
  assumes "\<forall>input\<in>set src. tame_line input"
  shows "\<exists>ok st. parse src = Inr (ok, st)"
proof -
  have "scannable initial_asm" by (simp add: scannable_def initial_asm_def)
  then obtain st1 where 1: "pass1 src initial_asm = Inr st1" and s: "scannable st1"
    using pass1_defined [OF _ assms] by blast
  obtain st2 where 2: "pass2 (label_ref st1) st1 = Inr st2"
    using pass2_defined [of "label_ref st1" st1] s by (auto simp: scannable_def)
  obtain ok st where "finish st2 = (ok, st)" by (cases "finish st2")
  then have "parse src = Inr (ok, st)" using 1 2 by (simp add: parse_def parse_from_def)
  then show ?thesis by blast
qed

text \<open>A number past the range of \<^verbatim>\<open>int\<close> makes a line one of the others: the digit loop
  overflows on 2147483600 already, where the sum with the character code of the last
  digit is past \<^verbatim>\<open>INT_MAX\<close>.\<close>

lemma overflowing_lines:
  "\<not> tame_line ''DAT 4294967295'' \<and> \<not> tame_line ''ADD 4294966296''
   \<and> \<not> tame_line ''ADD 2147483600'' \<and> tame_line ''ADD 899'' \<and> tame_line ''DAT 999''"
  by code_simp




section \<open>The capacity of the image\<close>

text \<open>The lines that emit, as the table of the mnemonics has them.\<close>

lemma emits_iff:
  "emits i p \<longleftrightarrow>
     (i \<in> {MNEMONIC_HLT, MNEMONIC_INP, MNEMONIC_OUT} \<and> p = [])
     \<or> (takes_reference i \<and> p \<noteq> [])
     \<or> (i = MNEMONIC_DAT \<and> (p = [] \<or> (\<exists>v. atoi p = Some v \<and> v \<le> 999)))"
  by (cases i)
     (auto simp: emits_def emit_plain_def emit_ref_def emit_dat_def emit_def count_error_def
        report_def initial_asm_def takes_reference_def split: if_splits option.splits)
















section \<open>The error counter\<close>

lemma parse_verdict: "parse src = Inr (ok, st) \<Longrightarrow> ok \<longleftrightarrow> errcount st = 0"
  by (auto simp: parse_def parse_from_def finish_def split: sum.splits if_splits)


lemma tallied_emit_instruction:
  "tallied st \<Longrightarrow> emit_instruction i p st = Inr st' \<Longrightarrow> tallied st'"
  by (cases i)
     (auto simp: tallied_def counted_def emit_plain_def emit_ref_def emit_dat_def emit_def
        count_error_def report_def split: if_splits option.splits)

lemma tallied_pass1_line:
  assumes "tallied st" and "pass1_line input st = Inr st'"
  shows "tallied st'"
proof (cases "classify (split input)")
  case Blank
  then show ?thesis using assms by (auto simp: pass1_line_def tallied_def)
next
  case (Bad m lab)
  have "m \<noteq> ProgramTooLong \<and> m \<noteq> DatOutOfRange"
    using Bad by (auto simp: classify_def split: if_splits)
  then show ?thesis
    using assms Bad
    by (cases lab) (auto simp: pass1_line_def tallied_def counted_def count_error_def report_def)
next
  case (Statement lab i p)
  let ?st = "set_label lab (st\<lparr>line := line st + 1\<rparr>)"
  have t: "tallied ?st" using assms(1) by (cases lab) (auto simp: tallied_def)
  have "place i p ?st = Inr st'" using assms(2) Statement by (simp add: pass1_line_def)
  then show ?thesis
    using t tallied_emit_instruction [of ?st i p st']
    by (auto simp: place_def tallied_def counted_def report_def split: if_splits)
qed

lemma tallied_pass1: "tallied st \<Longrightarrow> pass1 src st = Inr st' \<Longrightarrow> tallied st'"
proof (induction src arbitrary: st)
  case Nil
  then show ?case by simp
next
  case (Cons input rest)
  from Cons.prems(2) obtain st1 where 1: "pass1_line input st = Inr st1"
    and 2: "pass1 rest st1 = Inr st'"
    by (auto split: sum.splits)
  have "tallied st1" using Cons.prems(1) 1 by (rule tallied_pass1_line)
  then show ?case using 2 by (rule Cons.IH)
qed

lemma tallied_resolve: "tallied st \<Longrightarrow> resolve l st = Inr st' \<Longrightarrow> tallied st'"
  by (auto simp: resolve_def add_to_cell_def tallied_def counted_def count_error_def report_def
        split: option.splits if_splits)

lemma tallied_pass2: "tallied st \<Longrightarrow> pass2 refs st = Inr st' \<Longrightarrow> tallied st'"
proof (induction refs arbitrary: st)
  case Nil
  then show ?case by simp
next
  case (Cons l rest)
  from Cons.prems(2) obtain st1 where 1: "resolve l st = Inr st1"
    and 2: "pass2 rest st1 = Inr st'"
    by (auto split: sum.splits)
  have "tallied st1" using Cons.prems(1) 1 by (rule tallied_resolve)
  then show ?case using 2 by (rule Cons.IH)
qed

text \<open>\<^verbatim>\<open>errcount\<close> counts the error lines printed, but for those of the capacity check
  and of the DAT range check.\<close>

lemma errors_counted:
  assumes "parse src = Inr (ok, st)"
  shows "errcount st = length (filter counted (diags st))"
proof -
  from assms obtain st1 st2 where 1: "pass1 src initial_asm = Inr st1"
    and 2: "pass2 (label_ref st1) st1 = Inr st2" and 3: "finish st2 = (ok, st)"
    by (auto simp: parse_def parse_from_def split: sum.splits)
  have "tallied initial_asm" by (simp add: tallied_def initial_asm_def)
  then have "tallied st2" using 1 2 tallied_pass1 tallied_pass2 by blast
  then show ?thesis
    using 3 by (auto simp: finish_def tallied_def counted_def split: if_splits)
qed

text \<open>
  C2. The error of a DAT value above 999 and the error of a program longer than the image
  are printed, but \<^verbatim>\<open>errcount\<close> stays 0, \<^verbatim>\<open>parse\<close> returns true and \<^verbatim>\<open>main\<close> runs
  the interpreter: the one-line program \<^verbatim>\<open>DAT 1000\<close>, and a program of 101 lines
  \<^verbatim>\<open>OUT\<close>.
\<close>

theorem uncounted_errors:
  "parse [''DAT 1000''] =
     Inr (True, \<lparr> g_pc = 0, g_program = replicate 100 0, errcount = 0, line = 1,
       label_pc = [], label_ref = [], diags = [ErrorAt 1 DatOutOfRange] \<rparr>)
   \<and> lmc 1 [''DAT 1000''] [] =
     Inr (Executed (Halted \<lparr> g_pc = 1, g_program = replicate 100 0, acc = 0,
       overflow = False, cin = [], cout = [] \<rparr>))
   \<and> parse (replicate 101 ''OUT'') =
     Inr (True, \<lparr> g_pc = 100, g_program = replicate 100 900, errcount = 0, line = 101,
       label_pc = [], label_ref = [], diags = [ErrorAt 101 ProgramTooLong] \<rparr>)"
  by code_simp

section \<open>A whole program\<close>

text \<open>
  C8. Assembling the five lines INP, STA 99, LDA 99, OUT, HLT succeeds with no error
  counted and none printed; executing the image with the single input 7 halts after five
  cycles (and with any larger bound on the cycles), having printed exactly the line 7.
\<close>

theorem round_trip:
  "parse round_trip_src =
     Inr (True, \<lparr> g_pc = 5, g_program = [800, 399, 499, 900] @ replicate 96 0, errcount = 0,
       line = 5, label_pc = [], label_ref = [(1, ''99''), (2, ''99'')], diags = [] \<rparr>)
   \<and> lmc (5 + k) round_trip_src [7] =
       Inr (Executed (Halted \<lparr> g_pc = 5,
         g_program = [800, 399, 499, 900] @ replicate 95 0 @ [7], acc = 7,
         overflow = False, cin = [], cout = [Prompt, Printed 7] \<rparr>))
   \<and> printed [Prompt, Printed 7] = [7]"
proof -
  have a: "parse round_trip_src =
     Inr (True, \<lparr> g_pc = 5, g_program = [800, 399, 499, 900] @ replicate 96 0, errcount = 0,
       line = 5, label_pc = [], label_ref = [(1, ''99''), (2, ''99'')], diags = [] \<rparr>)"
    by code_simp
  have "run 5 (boot ([800, 399, 499, 900] @ replicate 96 0) [7]) =
       Halted \<lparr> g_pc = 5, g_program = [800, 399, 499, 900] @ replicate 95 0 @ [7], acc = 7,
         overflow = False, cin = [], cout = [Prompt, Printed 7] \<rparr>"
    by code_simp
  then have b: "execute (5 + k) ([800, 399, 499, 900] @ replicate 96 0) [7] =
       Halted \<lparr> g_pc = 5, g_program = [800, 399, 499, 900] @ replicate 95 0 @ [7], acc = 7,
         overflow = False, cin = [], cout = [Prompt, Printed 7] \<rparr>"
    unfolding execute_def by (rule run_halted_more)
  show ?thesis using a b by (simp add: lmc_def)
qed

end
